theory Spec2Isabelle
  imports Complex_Main "HOL-Library.Multiset"
begin

section \<open>Conventions of the embedding\<close>

text \<open>
  The development embeds the 2-opt engine of the repository: \<^verbatim>\<open>point.h\<close>,
  \<^verbatim>\<open>tour_utils.h\<close>, \<^verbatim>\<open>kd_tree.h\<close> and \<^verbatim>\<open>two_opt.h\<close>.

  \<^item> A \<^verbatim>\<open>double\<close> is a \<^typ>\<open>real\<close>: distances and gains are computed exactly.
  \<^item> A \<^verbatim>\<open>size_t\<close> is a \<^typ>\<open>nat\<close> below \<open>2 ^ 64\<close>. The subtractions of the
    source that can fall below zero (\<^verbatim>\<open>tour.size() - 2\<close>, \<^verbatim>\<open>tour.size() - 1\<close>,
    \<^verbatim>\<open>n - direct_length\<close>) and the one addition that can pass \<open>2 ^ 64\<close> behind such a
    bound (\<^verbatim>\<open>i + 2\<close> in \<^verbatim>\<open>basic_2opt\<close>) wrap around, written \<open>sz_sub\<close> and \<open>sz_add\<close>.
  \<^item> Reading or writing a vector outside its bounds and \<^verbatim>\<open>% 0\<close> are undefined
    behaviour in C++; the model returns an \<open>error\<close> there (\<open>Inl\<close>).
  \<^item> A \<^verbatim>\<open>std::vector<Point>&\<close> that a function mutates is passed in and returned.
  \<^item> Progress output, the clock and \<^verbatim>\<open>cpu_time\<close> have no counterpart.
\<close>

datatype error = OutOfBounds | DivisionByZero

definition bindE :: "error + 'a \<Rightarrow> ('a \<Rightarrow> error + 'b) \<Rightarrow> error + 'b" where
  "bindE m f = (case m of Inl e \<Rightarrow> Inl e | Inr v \<Rightarrow> f v)"

primrec foldE :: "('a \<Rightarrow> 's \<Rightarrow> error + 's) \<Rightarrow> 'a list \<Rightarrow> 's \<Rightarrow> error + 's" where
  "foldE f [] s = Inr s"
| "foldE f (x # xs) s = bindE (f x s) (foldE f xs)"

definition vec_at :: "'a list \<Rightarrow> nat \<Rightarrow> error + 'a" where
  "vec_at xs i = (if i < length xs then Inr (xs ! i) else Inl OutOfBounds)"

definition size_max :: nat where
  "size_max = 2 ^ 64"

definition sz_sub :: "nat \<Rightarrow> nat \<Rightarrow> nat" where
  "sz_sub a b = (a + size_max - b) mod size_max"

definition sz_add :: "nat \<Rightarrow> nat \<Rightarrow> nat" where
  "sz_add a b = (a + b) mod size_max"

section \<open>point.h\<close>

text \<open>
  The fields \<^verbatim>\<open>x\<close>, \<^verbatim>\<open>y\<close> and \<^verbatim>\<open>id\<close> of \<^verbatim>\<open>struct Point\<close> are \<open>px\<close>, \<open>py\<close> and \<open>pid\<close>.
\<close>

record Point =
  px :: real
  py :: real
  active :: bool
  pid :: nat

text \<open>The constructor \<^verbatim>\<open>Point(double x, double y, size_t id)\<close>, which sets \<^verbatim>\<open>active\<close>.\<close>

definition new_Point :: "real \<Rightarrow> real \<Rightarrow> nat \<Rightarrow> Point" where
  "new_Point a b k = \<lparr>px = a, py = b, active = True, pid = k\<rparr>"

definition distance :: "Point \<Rightarrow> Point \<Rightarrow> real" where
  "distance a b = sqrt ((px a - px b) * (px a - px b) + (py a - py b) * (py a - py b))"

definition distance_squared :: "Point \<Rightarrow> Point \<Rightarrow> real" where
  "distance_squared a b = (px a - px b) * (px a - px b) + (py a - py b) * (py a - py b)"

text \<open>
  \<^verbatim>\<open>tour_length\<close>: the loop index \<open>i\<close> stays below \<open>tour.size()\<close> and the
  second index is reduced modulo it, so both reads are in range.
\<close>

definition tour_length :: "Point list \<Rightarrow> real" where
  "tour_length tour =
     (if length tour < 2 then 0
      else fold (\<lambda>i len. len + distance (tour ! i) (tour ! ((i + 1) mod length tour)))
             [0..<length tour] 0)"

section \<open>tour\_utils.h\<close>

function reverse_segment :: "'a list \<Rightarrow> nat \<Rightarrow> nat \<Rightarrow> error + 'a list" where
  "reverse_segment tour start en =
     (if start < en then
        (if en < length tour
         then reverse_segment (tour[start := tour ! en, en := tour ! start]) (start + 1) (en - 1)
         else Inl OutOfBounds)
      else Inr tour)"
  by pat_completeness auto
termination
  by (relation "measure (\<lambda>(tour, start, en). en - start)") auto

declare reverse_segment.simps [simp del]

text \<open>
  \<^verbatim>\<open>std::reverse(tour.begin() + first, tour.begin() + lst)\<close> of the standard library:
  the elements of the half-open range are put in reverse order.
\<close>

definition std_reverse :: "'a list \<Rightarrow> nat \<Rightarrow> nat \<Rightarrow> error + 'a list" where
  "std_reverse tour first lst =
     (if first \<le> lst \<and> lst \<le> length tour
      then Inr (take first tour @ rev (take (lst - first) (drop first tour)) @ drop lst tour)
      else Inl OutOfBounds)"

definition smart_reverse_segment :: "'a list \<Rightarrow> nat \<Rightarrow> nat \<Rightarrow> error + 'a list" where
  "smart_reverse_segment tour i0 j0 =
     (let n = length tour;
          i = (if i0 > j0 then j0 else i0);
          j = (if i0 > j0 then i0 else j0);
          direct_length = j - i + 1;
          wrap_length = sz_sub n direct_length
      in if direct_length \<le> wrap_length then reverse_segment tour i j
         else bindE (std_reverse tour 0 i) (\<lambda>t1.
              bindE (std_reverse t1 (j + 1) n) (\<lambda>t2.
              std_reverse t2 0 n)))"

definition perform_2opt_swap :: "'a list \<Rightarrow> nat \<Rightarrow> nat \<Rightarrow> error + 'a list" where
  "perform_2opt_swap tour i0 j0 =
     (let i = (if i0 > j0 then j0 else i0);
          j = (if i0 > j0 then i0 else j0)
      in smart_reverse_segment tour (i + 1) j)"

definition calculate_2opt_gain :: "Point list \<Rightarrow> nat \<Rightarrow> nat \<Rightarrow> error + real" where
  "calculate_2opt_gain tour i0 j0 =
     (let n = length tour;
          i = (if i0 > j0 then j0 else i0);
          j = (if i0 > j0 then i0 else j0)
      in if j \<le> i + 1 \<or> (i = 0 \<and> j = sz_sub n 1) then Inr 0
         else if n = 0 then Inl DivisionByZero
         else
           (let i_next = (i + 1) mod n; j_next = (j + 1) mod n
            in bindE (vec_at tour i) (\<lambda>ti.
               bindE (vec_at tour i_next) (\<lambda>ti_next.
               bindE (vec_at tour j) (\<lambda>tj.
               bindE (vec_at tour j_next) (\<lambda>tj_next.
                 (let old_dist = distance ti ti_next + distance tj tj_next;
                      new_dist = distance ti tj + distance ti_next tj_next
                  in Inr (old_dist - new_dist))))))))"

definition calculate_2opt_gain_fast :: "Point list \<Rightarrow> nat \<Rightarrow> nat \<Rightarrow> error + real" where
  "calculate_2opt_gain_fast tour i0 j0 =
     (let n = length tour;
          i = (if i0 > j0 then j0 else i0);
          j = (if i0 > j0 then i0 else j0)
      in if j \<le> i + 1 \<or> (i = 0 \<and> j = sz_sub n 1) then Inr 0
         else if n = 0 then Inl DivisionByZero
         else
           (let i_next = (i + 1) mod n; j_next = (j + 1) mod n
            in bindE (vec_at tour i) (\<lambda>ti.
               bindE (vec_at tour i_next) (\<lambda>ti_next.
               bindE (vec_at tour j) (\<lambda>tj.
               bindE (vec_at tour j_next) (\<lambda>tj_next.
                 (let old_dist_sq = distance_squared ti ti_next + distance_squared tj tj_next;
                      new_dist_sq = distance_squared ti tj + distance_squared ti_next tj_next
                  in Inr (old_dist_sq - new_dist_sq))))))))"

text \<open>
  \<^verbatim>\<open>is_valid_tour\<close>: the \<^verbatim>\<open>unordered_map<size_t, bool> seen\<close>, whose missing keys
  read as \<^verbatim>\<open>false\<close>, is a function from ids to \<^typ>\<open>bool\<close>; \<open>mark_seen\<close> is the first
  loop, which returns early (\<open>None\<close>) on an id met twice.
\<close>

primrec mark_seen :: "Point list \<Rightarrow> (nat \<Rightarrow> bool) \<Rightarrow> (nat \<Rightarrow> bool) option" where
  "mark_seen [] seen = Some seen"
| "mark_seen (point # rest) seen =
     (if seen (pid point) then None else mark_seen rest (seen(pid point := True)))"

definition is_valid_tour :: "Point list \<Rightarrow> Point list \<Rightarrow> bool" where
  "is_valid_tour tour original_points =
     (if length tour \<noteq> length original_points then False
      else (case mark_seen tour (\<lambda>k. False) of
              None \<Rightarrow> False
            | Some seen \<Rightarrow> list_all (\<lambda>point. seen (pid point)) original_points))"

text \<open>
  The cyclic edge set of the specification's data model: the unordered pairs of
  neighbouring points, the last point being joined to the first.
\<close>

definition cyclic_edges :: "'a list \<Rightarrow> 'a set set" where
  "cyclic_edges tour =
     set (map (\<lambda>i. {tour ! i, tour ! ((i + 1) mod length tour)}) [0..<length tour])"

section \<open>kd\_tree.h\<close>

text \<open>
  A \<^verbatim>\<open>std::unique_ptr<KDNode>\<close> is either null or owns a node with its point, its
  two children and its depth. The class \<^verbatim>\<open>KDTree\<close> is the record of its three
  members; \<^verbatim>\<open>root\<close> and \<^verbatim>\<open>size_\<close> are written \<open>kd_root\<close> and \<open>kd_size\<close>.
\<close>

datatype KDNode = Null | KDNode Point KDNode KDNode int

record KDTree =
  kd_root :: KDNode
  kd_size :: nat
  nodes_visited :: nat

definition new_KDTree :: KDTree where
  "new_KDTree = \<lparr>kd_root = Null, kd_size = 0, nodes_visited = 0\<rparr>"

text \<open>The comparison passed to \<^verbatim>\<open>std::nth_element\<close>: by \<open>x\<close> when \<open>axis\<close>, else by \<open>y\<close>.\<close>

definition axis_less :: "bool \<Rightarrow> Point \<Rightarrow> Point \<Rightarrow> bool" where
  "axis_less axis a b = (if axis then px a < px b else py a < py b)"

text \<open>
  \<^verbatim>\<open>std::nth_element\<close> belongs to the standard library, which fixes its result only
  up to a postcondition. The model takes it as a parameter \<open>ne\<close>: \<open>ne cmp xs k\<close> is the
  new content of a range that held \<open>xs\<close>, for the position \<open>k\<close> counted from the start of
  the range. \<open>nth_element_spec\<close> is the postcondition of the C++ standard for the two
  comparisons the tree uses: the range is permuted, no element from position \<open>k\<close> on is
  less than an element before it, and none is less than the element at \<open>k\<close>.
  \<open>nth_element_sort\<close>, sorting the whole range by insertion, is one function that meets it.
\<close>

type_synonym nth_element = "(Point \<Rightarrow> Point \<Rightarrow> bool) \<Rightarrow> Point list \<Rightarrow> nat \<Rightarrow> Point list"


primrec insert_by :: "('a \<Rightarrow> 'a \<Rightarrow> bool) \<Rightarrow> 'a \<Rightarrow> 'a list \<Rightarrow> 'a list" where
  "insert_by cmp a [] = [a]"
| "insert_by cmp a (b # bs) = (if cmp b a then b # insert_by cmp a bs else a # b # bs)"

definition nth_element_sort :: nth_element where
  "nth_element_sort cmp xs k = foldr (insert_by cmp) xs []"

definition nth_element_range ::
  "nth_element \<Rightarrow> Point list \<Rightarrow> nat \<Rightarrow> nat \<Rightarrow> nat \<Rightarrow> (Point \<Rightarrow> Point \<Rightarrow> bool) \<Rightarrow> Point list" where
  "nth_element_range ne points first mid lst cmp =
     take first points @ ne cmp (take (lst - first) (drop first points)) (mid - first)
       @ drop lst points"

text \<open>
  The private \<^verbatim>\<open>build\<close> works on the shared array \<open>points\<close>, which it returns with
  the node. \<open>mid\<close> lies in \<open>[start, en)\<close>, a part of the array, so \<open>points[mid]\<close> is read
  in range.
\<close>

function build_rec :: "nth_element \<Rightarrow> Point list \<Rightarrow> int \<Rightarrow> nat \<Rightarrow> nat \<Rightarrow> KDNode \<times> Point list" where
  "build_rec ne points depth start en =
     (if start \<ge> en then (Null, points)
      else
        (let mid = (start + en) div 2;
             axis = (depth mod 2 = 0);
             points1 = nth_element_range ne points start mid en (axis_less axis);
             l = build_rec ne points1 (depth + 1) start mid;
             r = build_rec ne (snd l) (depth + 1) (mid + 1) en
         in (KDNode (points1 ! mid) (fst l) (fst r) depth, snd r)))"
  by pat_completeness auto
termination
  by (relation "measure (\<lambda>(ne, points, depth, start, en). en - start)") auto

declare build_rec.simps [simp del]

definition build :: "nth_element \<Rightarrow> KDTree \<Rightarrow> Point list \<Rightarrow> KDTree" where
  "build ne kd points =
     (if points = [] then kd
      else kd\<lparr>kd_root := fst (build_rec ne points 0 0 (length points)),
              kd_size := length points,
              nodes_visited := 0\<rparr>)"

text \<open>
  \<^verbatim>\<open>find_neighbors_frnn\<close> appends to \<^verbatim>\<open>neighbors\<close> and counts in the mutable member
  \<^verbatim>\<open>nodes_visited\<close>; both are passed in and returned.
\<close>

function find_neighbors_frnn :: "KDNode \<Rightarrow> Point \<Rightarrow> real \<Rightarrow> Point list \<times> nat \<Rightarrow> Point list \<times> nat" where
  "find_neighbors_frnn Null query radius s = s"
| "find_neighbors_frnn (KDNode p l r depth) query radius s =
     (let visited = snd s + 1;
          dist_sq = distance_squared p query;
          neighbors = (if dist_sq \<le> radius * radius then fst s @ [p] else fst s);
          axis = (depth mod 2 = 0);
          diff = (if axis then px query - px p else py query - py p)
      in if diff \<le> 0 then
           (let s1 = find_neighbors_frnn l query radius (neighbors, visited)
            in if diff * diff \<le> radius * radius then find_neighbors_frnn r query radius s1
               else s1)
         else
           (let s1 = find_neighbors_frnn r query radius (neighbors, visited)
            in if diff * diff \<le> radius * radius then find_neighbors_frnn l query radius s1
               else s1))"
  by pat_completeness auto
termination
  by (relation "measure (\<lambda>(node, query, radius, s). size node)") auto

definition find_neighbors :: "KDTree \<Rightarrow> Point \<Rightarrow> real \<Rightarrow> Point list \<times> KDTree" where
  "find_neighbors kd query radius =
     (let s = find_neighbors_frnn (kd_root kd) query radius ([], 0)
      in (fst s, kd\<lparr>nodes_visited := snd s\<rparr>))"

text \<open>
  The loop of \<^verbatim>\<open>find_neighbors_adaptive\<close> need not end (a radius of \<open>0\<close> is never
  enlarged), so it is a partial function: \<open>None\<close> stands for a call that does not return.
\<close>

partial_function (option) adaptive_loop ::
  "KDNode \<Rightarrow> Point \<Rightarrow> nat \<Rightarrow> real \<Rightarrow> Point list \<times> nat \<Rightarrow> (Point list \<times> nat) option" where
  "adaptive_loop node query min_neighbors radius s =
     (if length (fst s) < min_neighbors \<and> radius < 2 then
        (let s1 = find_neighbors_frnn node query radius ([], 0)
         in adaptive_loop node query min_neighbors
              (if length (fst s1) < min_neighbors then radius * 1.5 else radius) s1)
      else Some s)"

definition find_neighbors_adaptive ::
  "KDTree \<Rightarrow> Point \<Rightarrow> real \<Rightarrow> nat \<Rightarrow> (Point list \<times> KDTree) option" where
  "find_neighbors_adaptive kd query base_radius min_neighbors =
     map_option (\<lambda>s. (fst s, kd\<lparr>nodes_visited := snd s\<rparr>))
       (adaptive_loop (kd_root kd) query min_neighbors base_radius ([], nodes_visited kd))"

section \<open>two\_opt.h\<close>

record OptimizationStats =
  initial_length :: real
  final_length :: real
  num_swaps :: nat
  num_visited :: nat
  total_comparisons :: nat
  iterations :: nat
  active_nodes :: nat

definition new_stats :: OptimizationStats where
  "new_stats = \<lparr>initial_length = 0, final_length = 0, num_swaps = 0, num_visited = 0,
                 total_comparisons = 0, iterations = 0, active_nodes = 0\<rparr>"

definition max_iterations :: nat where
  "max_iterations = 1000"

definition min_improvement :: real where
  "min_improvement = 1 / 10 ^ 9"

text \<open>
  The variables a pass searches with: \<^verbatim>\<open>best_gain\<close>, \<^verbatim>\<open>best_i\<close>, \<^verbatim>\<open>best_j\<close>, and
  \<open>comparisons\<close> for \<^verbatim>\<open>stats.total_comparisons\<close>; the geometric and the hybrid
  optimizer also carry their \<^verbatim>\<open>kdtree\<close>, whose visit counter the queries write.
\<close>

record search =
  best_gain :: real
  best_i :: nat
  best_j :: nat
  comparisons :: nat

record kd_search = search +
  kdtree :: KDTree

text \<open>
  All four optimizers evaluate a candidate pair with the same lines: compute the gain,
  count the comparison, and keep the pair when the gain is greater than the best so far.
  \<open>gain_of\<close> is \<open>calculate_2opt_gain\<close>, or \<open>calculate_2opt_gain_fast\<close> in the hybrid optimizer.
\<close>

definition try_swap ::
  "(Point list \<Rightarrow> nat \<Rightarrow> nat \<Rightarrow> error + real) \<Rightarrow> Point list \<Rightarrow> nat \<Rightarrow> nat \<Rightarrow>
   'a search_scheme \<Rightarrow> error + 'a search_scheme" where
  "try_swap gain_of tour i j s =
     bindE (gain_of tour i j) (\<lambda>gain.
       (let s1 = s\<lparr>comparisons := comparisons s + 1\<rparr>
        in Inr (if gain > best_gain s1 then s1\<lparr>best_gain := gain, best_i := i, best_j := j\<rparr>
                else s1)))"

definition new_search :: "nat \<Rightarrow> search" where
  "new_search c = \<lparr>best_gain = min_improvement, best_i = 0, best_j = 0, comparisons = c\<rparr>"

subsection \<open>basic\_2opt\<close>

definition basic_search :: "Point list \<Rightarrow> nat \<Rightarrow> error + search" where
  "basic_search tour c =
     foldE (\<lambda>i. foldE (\<lambda>j s.
                if j = sz_sub (length tour) 1 \<and> i = 0 then Inr s
                else try_swap calculate_2opt_gain tour i j s)
              [sz_add i 2..<length tour])
       [0..<sz_sub (length tour) 2] (new_search c)"

text \<open>One pass of the \<^verbatim>\<open>while\<close> loop: the new tour, the new statistics and \<^verbatim>\<open>improved\<close>.\<close>

definition basic_pass ::
  "Point list \<Rightarrow> OptimizationStats \<Rightarrow> error + Point list \<times> OptimizationStats \<times> bool" where
  "basic_pass tour stats =
     (let stats1 = stats\<lparr>iterations := iterations stats + 1\<rparr>
      in bindE (basic_search tour (total_comparisons stats1)) (\<lambda>s.
           (let stats2 = stats1\<lparr>total_comparisons := comparisons s\<rparr>
            in if best_gain s > min_improvement then
                 bindE (perform_2opt_swap tour (best_i s) (best_j s)) (\<lambda>tour'.
                   Inr (tour', stats2\<lparr>num_swaps := num_swaps stats2 + 1\<rparr>, True))
               else Inr (tour, stats2, False))))"

lemma bindE_cong [fundef_cong]:
  "m = m' \<Longrightarrow> (\<And>v. m' = Inr v \<Longrightarrow> f v = f' v) \<Longrightarrow> bindE m f = bindE m' f'"
  by (cases m') (simp_all add: bindE_def)

lemma basic_pass_iterations:
  "basic_pass tour stats = Inr (tour', stats', improved') \<Longrightarrow>
   iterations stats' = iterations stats + 1"
  by (auto simp: basic_pass_def bindE_def Let_def split: sum.splits if_splits)

function basic_loop ::
  "Point list \<Rightarrow> OptimizationStats \<Rightarrow> bool \<Rightarrow> error + Point list \<times> OptimizationStats" where
  "basic_loop tour stats improved =
     (if improved \<and> iterations stats < max_iterations then
        bindE (basic_pass tour stats) (\<lambda>r. basic_loop (fst r) (fst (snd r)) (snd (snd r)))
      else Inr (tour, stats))"
  by pat_completeness auto
termination
proof (relation "measure (\<lambda>(tour, stats, improved). max_iterations - iterations stats)")
  show "wf (measure (\<lambda>(tour, stats, improved). max_iterations - iterations stats))"
    by simp
next
  fix tour :: "Point list" and stats :: OptimizationStats and improved :: bool
    and r :: "Point list \<times> OptimizationStats \<times> bool"
  assume a: "improved \<and> iterations stats < max_iterations" and b: "basic_pass tour stats = Inr r"
  from b have "iterations (fst (snd r)) = iterations stats + 1"
    by (cases r) (auto dest: basic_pass_iterations)
  with a show "((fst r, fst (snd r), snd (snd r)), (tour, stats, improved))
      \<in> measure (\<lambda>(tour, stats, improved). max_iterations - iterations stats)"
    by (auto simp: case_prod_beta)
qed

declare basic_loop.simps [simp del]

definition basic_2opt :: "Point list \<Rightarrow> error + Point list \<times> OptimizationStats" where
  "basic_2opt tour =
     (let stats = new_stats\<lparr>initial_length := tour_length tour\<rparr>
      in bindE (basic_loop tour stats True) (\<lambda>r.
           Inr (fst r, (snd r)\<lparr>final_length := tour_length (fst r)\<rparr>)))"

subsection \<open>geometric\_2opt\<close>

text \<open>\<^verbatim>\<open>std::find_if\<close> over the tour: the first position whose point satisfies \<open>P\<close>.\<close>

primrec find_if :: "('a \<Rightarrow> bool) \<Rightarrow> 'a list \<Rightarrow> nat option" where
  "find_if P [] = None"
| "find_if P (a # as) = (if P a then Some 0 else map_option Suc (find_if P as))"

definition new_kd_search :: "nat \<Rightarrow> KDTree \<Rightarrow> kd_search" where
  "new_kd_search c kd =
     \<lparr>best_gain = min_improvement, best_i = 0, best_j = 0, comparisons = c, kdtree = kd\<rparr>"

text \<open>The body of the loop over \<^verbatim>\<open>neighbors\<close>, for one neighbor.\<close>

definition geometric_neighbor :: "Point list \<Rightarrow> nat \<Rightarrow> Point \<Rightarrow> kd_search \<Rightarrow> error + kd_search" where
  "geometric_neighbor tour i neighbor s =
     (case find_if (\<lambda>p. pid p = pid neighbor) tour of
        None \<Rightarrow> Inr s
      | Some j \<Rightarrow>
          if j > i + 1 \<and> \<not> (j = sz_sub (length tour) 1 \<and> i = 0)
          then try_swap calculate_2opt_gain tour i j s
          else Inr s)"

text \<open>The body of the loop over \<open>i\<close>.\<close>

definition geometric_visit :: "Point list \<Rightarrow> nat \<Rightarrow> kd_search \<Rightarrow> error + kd_search" where
  "geometric_visit tour i s =
     bindE (vec_at tour i) (\<lambda>ti.
     bindE (if length tour = 0 then Inl DivisionByZero
            else vec_at tour ((i + 1) mod length tour)) (\<lambda>ti_next.
     bindE (vec_at tour ((i + length tour - 1) mod length tour)) (\<lambda>ti_prev.
       (let edge_dist = distance ti ti_next;
            prev_edge_dist = distance ti_prev ti;
            avg_edge_dist = (edge_dist + prev_edge_dist) / 2;
            radius = max (avg_edge_dist * 3) (1 / 10);
            q1 = find_neighbors (kdtree s) ti radius;
            q2 = (if length (fst q1) < 5 then find_neighbors (snd q1) ti (radius * 2) else q1)
        in foldE (geometric_neighbor tour i) (fst q2) (s\<lparr>kdtree := snd q2\<rparr>)))))"

definition geometric_pass ::
  "nth_element \<Rightarrow> Point list \<Rightarrow> OptimizationStats \<Rightarrow> KDTree \<Rightarrow>
   error + Point list \<times> OptimizationStats \<times> KDTree \<times> bool" where
  "geometric_pass ne tour stats kd =
     (let stats1 = stats\<lparr>iterations := iterations stats + 1\<rparr>;
          kd1 = kd\<lparr>nodes_visited := 0\<rparr>
      in bindE (foldE (geometric_visit tour) [0..<sz_sub (length tour) 2]
                  (new_kd_search (total_comparisons stats1) kd1)) (\<lambda>s.
           (let stats2 = stats1\<lparr>total_comparisons := comparisons s,
                                 num_visited := num_visited stats1 + nodes_visited (kdtree s)\<rparr>
            in if best_gain s > min_improvement then
                 bindE (perform_2opt_swap tour (best_i s) (best_j s)) (\<lambda>tour'.
                   (let stats3 = stats2\<lparr>num_swaps := num_swaps stats2 + 1\<rparr>;
                        kd2 = (if num_swaps stats3 mod 25 = 0 then build ne (kdtree s) tour'
                               else kdtree s)
                    in Inr (tour', stats3, kd2, True)))
               else Inr (tour, stats2, kdtree s, False))))"

lemma geometric_pass_iterations:
  "geometric_pass ne tour stats kd = Inr (tour', stats', kd', improved') \<Longrightarrow>
   iterations stats' = iterations stats + 1"
  by (auto simp: geometric_pass_def bindE_def Let_def split: sum.splits if_splits)

function geometric_loop ::
  "nth_element \<Rightarrow> Point list \<Rightarrow> OptimizationStats \<Rightarrow> KDTree \<Rightarrow> bool \<Rightarrow>
   error + Point list \<times> OptimizationStats" where
  "geometric_loop ne tour stats kd improved =
     (if improved \<and> iterations stats < max_iterations then
        bindE (geometric_pass ne tour stats kd) (\<lambda>r.
          geometric_loop ne (fst r) (fst (snd r)) (fst (snd (snd r))) (snd (snd (snd r))))
      else Inr (tour, stats))"
  by pat_completeness auto
termination
proof (relation "measure (\<lambda>(ne, tour, stats, kd, improved). max_iterations - iterations stats)")
  show "wf (measure (\<lambda>(ne, tour, stats, kd, improved). max_iterations - iterations stats))"
    by simp
next
  fix ne :: nth_element and tour :: "Point list" and stats :: OptimizationStats
    and kd :: KDTree and improved :: bool
    and r :: "Point list \<times> OptimizationStats \<times> KDTree \<times> bool"
  assume a: "improved \<and> iterations stats < max_iterations"
    and b: "geometric_pass ne tour stats kd = Inr r"
  from b have "iterations (fst (snd r)) = iterations stats + 1"
    by (cases r) (auto dest: geometric_pass_iterations)
  with a show "((ne, fst r, fst (snd r), fst (snd (snd r)), snd (snd (snd r))),
       (ne, tour, stats, kd, improved))
      \<in> measure (\<lambda>(ne, tour, stats, kd, improved). max_iterations - iterations stats)"
    by (auto simp: case_prod_beta)
qed

declare geometric_loop.simps [simp del]

definition geometric_2opt ::
  "nth_element \<Rightarrow> Point list \<Rightarrow> error + Point list \<times> OptimizationStats" where
  "geometric_2opt ne tour =
     (let stats = new_stats\<lparr>initial_length := tour_length tour\<rparr>;
          kd = build ne new_KDTree tour
      in bindE (geometric_loop ne tour stats kd True) (\<lambda>r.
           Inr (fst r, (snd r)\<lparr>final_length := tour_length (fst r)\<rparr>)))"

subsection \<open>approximate\_2opt\<close>

definition activate_all :: "Point list \<Rightarrow> Point list" where
  "activate_all tour = map (\<lambda>p. p\<lparr>active := True\<rparr>) tour"

definition deactivate_all :: "Point list \<Rightarrow> Point list" where
  "deactivate_all tour = map (\<lambda>p. p\<lparr>active := False\<rparr>) tour"

text \<open>\<^verbatim>\<open>tour[idx].active = true\<close>.\<close>

definition activate :: "nat \<Rightarrow> Point list \<Rightarrow> error + Point list" where
  "activate idx tour =
     (if idx < length tour then Inr (tour[idx := (tour ! idx)\<lparr>active := True\<rparr>])
      else Inl OutOfBounds)"

text \<open>
  \<^verbatim>\<open>(best + n + offset) % n\<close> for the \<^verbatim>\<open>int\<close> \<open>offset\<close>: the sum is taken in
  \<^verbatim>\<open>size_t\<close>, to which \<open>offset\<close> is converted, hence modulo \<open>2 ^ 64\<close>.
\<close>

definition offset_index :: "nat \<Rightarrow> nat \<Rightarrow> int \<Rightarrow> error + nat" where
  "offset_index best n offset =
     (if n = 0 then Inl DivisionByZero
      else Inr (nat ((int best + int n + offset) mod int size_max) mod n))"

text \<open>The positions \<open>i\<close> below \<open>tour.size()\<close> with \<^verbatim>\<open>tour[i].active\<close>, in increasing order.\<close>

definition active_indices :: "Point list \<Rightarrow> nat list" where
  "active_indices tour = filter (\<lambda>i. active (tour ! i)) [0..<length tour]"

definition approximate_search :: "Point list \<Rightarrow> nat list \<Rightarrow> nat \<Rightarrow> error + search" where
  "approximate_search tour act c =
     foldE (\<lambda>idx_i. foldE (\<lambda>idx_j s.
                (let i = act ! idx_i; j = act ! idx_j
                 in if j > i + 1 \<and> \<not> (j = sz_sub (length tour) 1 \<and> i = 0)
                    then try_swap calculate_2opt_gain tour i j s
                    else Inr s))
              [idx_i + 1..<length act])
       [0..<length act] (new_search c)"

text \<open>
  The activation after a swap. The source collects the ten positions in an
  \<^verbatim>\<open>unordered_set\<close> and then sets \<^verbatim>\<open>active\<close> at each; setting a flag twice or in
  another order gives the same tour, so the positions are visited as they are computed.
\<close>

definition activate_around :: "int list \<Rightarrow> nat \<Rightarrow> nat \<Rightarrow> Point list \<Rightarrow> error + Point list" where
  "activate_around offsets bi bj tour =
     foldE (\<lambda>offset t.
        bindE (offset_index bi (length tour) offset) (\<lambda>a.
        bindE (offset_index bj (length tour) offset) (\<lambda>b.
        bindE (activate a t) (activate b))))
       offsets tour"

text \<open>
  The random activation of a pass that found no swap. \<open>rnd k\<close> is the value of the
  \<open>k\<close>-th call \<^verbatim>\<open>dist(gen)\<close> of the pass; the distribution is over \<open>[0, tour.size() - 1]\<close>.
\<close>

definition activate_random :: "(nat \<Rightarrow> nat) \<Rightarrow> nat \<Rightarrow> Point list \<Rightarrow> error + Point list" where
  "activate_random rnd cnt tour = foldE (\<lambda>k. activate (rnd k)) [0..<cnt] tour"

definition approximate_pass ::
  "(nat \<Rightarrow> nat) \<Rightarrow> Point list \<Rightarrow> OptimizationStats \<Rightarrow>
   error + Point list \<times> OptimizationStats \<times> bool" where
  "approximate_pass rnd tour stats =
     (let stats1 = stats\<lparr>iterations := iterations stats + 1\<rparr>;
          act = active_indices tour;
          stats2 = stats1\<lparr>active_nodes := length act\<rparr>
      in bindE (approximate_search tour act (total_comparisons stats2)) (\<lambda>s.
           (let stats3 = stats2\<lparr>total_comparisons := comparisons s\<rparr>
            in if best_gain s > min_improvement then
                 bindE (perform_2opt_swap tour (best_i s) (best_j s)) (\<lambda>tour1.
                 bindE (activate_around [-2, -1, 0, 1, 2] (best_i s) (best_j s)
                          (deactivate_all tour1)) (\<lambda>tour2.
                   Inr (tour2, stats3\<lparr>num_swaps := num_swaps stats3 + 1\<rparr>, True)))
               else
                 (let to_activate_count = min (length tour) (length act + 10)
                  in bindE (activate_random rnd (to_activate_count - length act) tour) (\<lambda>tour1.
                       Inr (tour1, stats3, False))))))"

lemma approximate_pass_iterations:
  "approximate_pass rnd tour stats = Inr (tour', stats', improved') \<Longrightarrow>
   iterations stats' = iterations stats + 1"
  by (auto simp: approximate_pass_def bindE_def Let_def split: sum.splits if_splits)

function approximate_loop ::
  "(nat \<Rightarrow> nat) \<Rightarrow> Point list \<Rightarrow> OptimizationStats \<Rightarrow> bool \<Rightarrow>
   error + Point list \<times> OptimizationStats" where
  "approximate_loop rnd tour stats improved =
     (if improved \<and> iterations stats < max_iterations then
        bindE (approximate_pass rnd tour stats) (\<lambda>r.
          approximate_loop rnd (fst r) (fst (snd r)) (snd (snd r)))
      else Inr (tour, stats))"
  by pat_completeness auto
termination
proof (relation "measure (\<lambda>(rnd, tour, stats, improved). max_iterations - iterations stats)")
  show "wf (measure (\<lambda>(rnd, tour, stats, improved). max_iterations - iterations stats))"
    by simp
next
  fix rnd :: "nat \<Rightarrow> nat" and tour :: "Point list" and stats :: OptimizationStats
    and improved :: bool and r :: "Point list \<times> OptimizationStats \<times> bool"
  assume a: "improved \<and> iterations stats < max_iterations"
    and b: "approximate_pass rnd tour stats = Inr r"
  from b have "iterations (fst (snd r)) = iterations stats + 1"
    by (cases r) (auto dest: approximate_pass_iterations)
  with a show "((rnd, fst r, fst (snd r), snd (snd r)), (rnd, tour, stats, improved))
      \<in> measure (\<lambda>(rnd, tour, stats, improved). max_iterations - iterations stats)"
    by (auto simp: case_prod_beta)
qed

declare approximate_loop.simps [simp del]

definition approximate_2opt ::
  "(nat \<Rightarrow> nat) \<Rightarrow> Point list \<Rightarrow> error + Point list \<times> OptimizationStats" where
  "approximate_2opt rnd tour =
     (let stats = new_stats\<lparr>initial_length := tour_length tour\<rparr>
      in bindE (approximate_loop rnd (activate_all tour) stats True) (\<lambda>r.
           Inr (fst r, (snd r)\<lparr>final_length := tour_length (fst r)\<rparr>)))"

subsection \<open>hybrid\_2opt\<close>

text \<open>
  The hybrid optimizer calls \<^verbatim>\<open>find_neighbors_adaptive\<close>, which need not return; its
  results are of type \<open>(error + 'a) option\<close>, with \<open>None\<close> for a run that does not end.
\<close>

definition bindO ::
  "(error + 'a) option \<Rightarrow> ('a \<Rightarrow> (error + 'b) option) \<Rightarrow> (error + 'b) option" where
  "bindO m f = (case m of None \<Rightarrow> None | Some (Inl e) \<Rightarrow> Some (Inl e) | Some (Inr v) \<Rightarrow> f v)"

primrec foldO :: "('a \<Rightarrow> 's \<Rightarrow> (error + 's) option) \<Rightarrow> 'a list \<Rightarrow> 's \<Rightarrow> (error + 's) option" where
  "foldO f [] s = Some (Inr s)"
| "foldO f (x # xs) s = bindO (f x s) (foldO f xs)"

definition hybrid_neighbor :: "Point list \<Rightarrow> nat \<Rightarrow> Point \<Rightarrow> kd_search \<Rightarrow> error + kd_search" where
  "hybrid_neighbor tour i neighbor s =
     (case find_if (\<lambda>p. pid p = pid neighbor) tour of
        None \<Rightarrow> Inr s
      | Some j \<Rightarrow>
          if j > i + 1 \<and> \<not> (j = sz_sub (length tour) 1 \<and> i = 0) \<and> active (tour ! j)
          then try_swap calculate_2opt_gain_fast tour i j s
          else Inr s)"

definition hybrid_visit :: "Point list \<Rightarrow> nat \<Rightarrow> kd_search \<Rightarrow> (error + kd_search) option" where
  "hybrid_visit tour i s =
     (if i \<ge> sz_sub (length tour) 2 then Some (Inr s)
      else
        bindO (Some (vec_at tour i)) (\<lambda>ti.
        bindO (Some (if length tour = 0 then Inl DivisionByZero
                     else vec_at tour ((i + 1) mod length tour))) (\<lambda>ti_next.
          (let edge_dist = distance ti ti_next;
               radius = max (edge_dist * 4) (15 / 100)
           in case find_neighbors_adaptive (kdtree s) ti radius 8 of
                None \<Rightarrow> None
              | Some q \<Rightarrow> Some (foldE (hybrid_neighbor tour i) (fst q) (s\<lparr>kdtree := snd q\<rparr>))))))"

text \<open>
  The activation of a pass that found no swap: every second position below
  \<^verbatim>\<open>nodes_to_activate\<close>, each guarded by \<^verbatim>\<open>i < tour.size()\<close>.
\<close>

definition activate_every_second :: "nat \<Rightarrow> Point list \<Rightarrow> error + Point list" where
  "activate_every_second nodes_to_activate tour =
     foldE (\<lambda>i t. if i < length t then activate i t else Inr t)
       (filter even [0..<nodes_to_activate]) tour"

definition hybrid_pass ::
  "nth_element \<Rightarrow> Point list \<Rightarrow> OptimizationStats \<Rightarrow> KDTree \<Rightarrow>
   (error + Point list \<times> OptimizationStats \<times> KDTree \<times> bool) option" where
  "hybrid_pass ne tour stats kd =
     (let stats1 = stats\<lparr>iterations := iterations stats + 1\<rparr>;
          kd1 = kd\<lparr>nodes_visited := 0\<rparr>;
          act = active_indices tour;
          stats2 = stats1\<lparr>active_nodes := length act\<rparr>
      in bindO (foldO (hybrid_visit tour) act (new_kd_search (total_comparisons stats2) kd1)) (\<lambda>s.
           (let stats3 = stats2\<lparr>total_comparisons := comparisons s,
                                 num_visited := num_visited stats2 + nodes_visited (kdtree s)\<rparr>
            in if best_gain s > min_improvement then
                 Some (bindE (perform_2opt_swap tour (best_i s) (best_j s)) (\<lambda>tour1.
                       bindE (activate_around [-4, -3, -2, -1, 0, 1, 2, 3, 4] (best_i s) (best_j s)
                                (deactivate_all tour1)) (\<lambda>tour2.
                         (let stats4 = stats3\<lparr>num_swaps := num_swaps stats3 + 1\<rparr>;
                              kd2 = (if num_swaps stats4 mod 30 = 0 then build ne (kdtree s) tour2
                                     else kdtree s)
                          in Inr (tour2, stats4, kd2, True)))))
               else
                 (let nodes_to_activate =
                        min (length tour) (max (length act + 15) (length tour div 4))
                  in Some (bindE (activate_every_second nodes_to_activate (deactivate_all tour))
                             (\<lambda>tour1. Inr (tour1, stats3, kdtree s, False)))))))"

lemma bindO_cong [fundef_cong]:
  "m = m' \<Longrightarrow> (\<And>v. m' = Some (Inr v) \<Longrightarrow> f v = f' v) \<Longrightarrow> bindO m f = bindO m' f'"
  by (auto simp: bindO_def split: option.splits sum.splits)

lemma hybrid_pass_iterations:
  "hybrid_pass ne tour stats kd = Some (Inr (tour', stats', kd', improved')) \<Longrightarrow>
   iterations stats' = iterations stats + 1"
  by (auto simp: hybrid_pass_def bindO_def bindE_def Let_def
      split: option.splits sum.splits if_splits)

function hybrid_loop ::
  "nth_element \<Rightarrow> Point list \<Rightarrow> OptimizationStats \<Rightarrow> KDTree \<Rightarrow> bool \<Rightarrow>
   (error + Point list \<times> OptimizationStats) option" where
  "hybrid_loop ne tour stats kd improved =
     (if improved \<and> iterations stats < max_iterations then
        bindO (hybrid_pass ne tour stats kd) (\<lambda>r.
          hybrid_loop ne (fst r) (fst (snd r)) (fst (snd (snd r))) (snd (snd (snd r))))
      else Some (Inr (tour, stats)))"
  by pat_completeness auto
termination
proof (relation "measure (\<lambda>(ne, tour, stats, kd, improved). max_iterations - iterations stats)")
  show "wf (measure (\<lambda>(ne, tour, stats, kd, improved). max_iterations - iterations stats))"
    by simp
next
  fix ne :: nth_element and tour :: "Point list" and stats :: OptimizationStats
    and kd :: KDTree and improved :: bool
    and r :: "Point list \<times> OptimizationStats \<times> KDTree \<times> bool"
  assume a: "improved \<and> iterations stats < max_iterations"
    and b: "hybrid_pass ne tour stats kd = Some (Inr r)"
  from b have "iterations (fst (snd r)) = iterations stats + 1"
    by (cases r) (auto dest: hybrid_pass_iterations)
  with a show "((ne, fst r, fst (snd r), fst (snd (snd r)), snd (snd (snd r))),
       (ne, tour, stats, kd, improved))
      \<in> measure (\<lambda>(ne, tour, stats, kd, improved). max_iterations - iterations stats)"
    by (auto simp: case_prod_beta)
qed

declare hybrid_loop.simps [simp del]

definition hybrid_2opt ::
  "nth_element \<Rightarrow> Point list \<Rightarrow> (error + Point list \<times> OptimizationStats) option" where
  "hybrid_2opt ne tour =
     (let stats = new_stats\<lparr>initial_length := tour_length tour\<rparr>;
          kd = build ne new_KDTree tour
      in bindO (hybrid_loop ne (activate_all tour) stats kd True) (\<lambda>r.
           Some (Inr (fst r, (snd r)\<lparr>final_length := tour_length (fst r)\<rparr>))))"

section \<open>The optimizers as relations\<close>

text \<open>
  What an optimizer never writes: the coordinates and the id of a point.
\<close>

definition coords :: "Point \<Rightarrow> real \<times> real \<times> nat" where
  "coords p = (px p, py p, pid p)"

text \<open>
  \<open>optimizer_pass ne rnd T T'\<close>: one pass of the loop of some optimizer, entered with the
  tour \<open>T\<close> and any statistics and tree, ends with the tour \<open>T'\<close>; the activation of all
  points, by which \<open>approximate_2opt\<close> and \<open>hybrid_2opt\<close> start, counts as a step too.
  \<open>run_optimizer opt ne rnd T\<close> is the call of the optimizer \<open>opt\<close> on \<open>T\<close>: \<open>Some (Inr r)\<close>
  when it returns \<open>r\<close>, the mutated tour and the statistics.
\<close>

inductive optimizer_pass :: "nth_element \<Rightarrow> (nat \<Rightarrow> nat) \<Rightarrow> Point list \<Rightarrow> Point list \<Rightarrow> bool"
  for ne :: nth_element and rnd :: "nat \<Rightarrow> nat" where
  pass_basic: "basic_pass T st = Inr (T', st', b) \<Longrightarrow> optimizer_pass ne rnd T T'"
| pass_geometric: "geometric_pass ne T st kd = Inr (T', st', kd', b) \<Longrightarrow> optimizer_pass ne rnd T T'"
| pass_approximate: "approximate_pass rnd T st = Inr (T', st', b) \<Longrightarrow> optimizer_pass ne rnd T T'"
| pass_hybrid: "hybrid_pass ne T st kd = Some (Inr (T', st', kd', b)) \<Longrightarrow> optimizer_pass ne rnd T T'"
| pass_activate: "optimizer_pass ne rnd T (activate_all T)"

datatype optimizer = Basic | Geometric | Approximate | Hybrid

fun run_optimizer ::
  "optimizer \<Rightarrow> nth_element \<Rightarrow> (nat \<Rightarrow> nat) \<Rightarrow> Point list \<Rightarrow>
   (error + Point list \<times> OptimizationStats) option" where
  "run_optimizer Basic ne rnd T = Some (basic_2opt T)"
| "run_optimizer Geometric ne rnd T = Some (geometric_2opt ne T)"
| "run_optimizer Approximate ne rnd T = Some (approximate_2opt rnd T)"
| "run_optimizer Hybrid ne rnd T = hybrid_2opt ne T"

text \<open>
  A 2-opt local minimum, as the optimizers measure it: no pair of positions of the tour
  has a gain above \<open>min_improvement\<close>.
\<close>

definition local_minimum :: "Point list \<Rightarrow> bool" where
  "local_minimum T \<longleftrightarrow>
     (\<forall>i < length T. \<forall>j < length T.
        \<exists>g. calculate_2opt_gain T i j = Inr g \<and> g \<le> min_improvement)"





definition chosen :: "Point list \<Rightarrow> 'a search_scheme \<Rightarrow> bool" where
  "chosen T s \<longleftrightarrow>
     best_gain s = min_improvement \<or>
     (min_improvement < best_gain s \<and>
      calculate_2opt_gain T (best_i s) (best_j s) = Inr (best_gain s))"

section \<open>Concrete tours\<close>

text \<open>
  Five points on the \<open>x\<close> axis, at 5, 1, 3, 7 and 4, with the ids 0 to 4, and the same
  tour in reverse order.
\<close>

definition tour5 :: "Point list" where
  "tour5 = [new_Point 5 0 0, new_Point 1 0 1, new_Point 3 0 2, new_Point 7 0 3, new_Point 4 0 4]"

definition tour5_rev :: "Point list" where
  "tour5_rev = [new_Point 4 0 4, new_Point 7 0 3, new_Point 3 0 2, new_Point 1 0 1, new_Point 5 0 0]"

text \<open>
  The corners of a rectangle of width 3 and height 4, visited along both diagonals, and
  the same points visited along the sides.
\<close>

definition tour4 :: "Point list" where
  "tour4 = [new_Point 0 0 0, new_Point 3 4 1, new_Point 3 0 2, new_Point 0 4 3]"

definition tour4_opt :: "Point list" where
  "tour4_opt = [new_Point 0 0 0, new_Point 3 0 2, new_Point 3 4 1, new_Point 0 4 3]"





section \<open>Basic facts\<close>

lemma bindE_simps [simp]:
  "bindE (Inl e) f = Inl e"
  "bindE (Inr v) f = f v"
  by (simp_all add: bindE_def)

lemma bindE_eq_Inr: "bindE m f = Inr y \<longleftrightarrow> (\<exists>v. m = Inr v \<and> f v = Inr y)"
  by (cases m) simp_all

lemma sz_sub_simp: "b \<le> a \<Longrightarrow> a < size_max \<Longrightarrow> sz_sub a b = a - b"
proof -
  assume a: "b \<le> a" "a < size_max"
  then have "a + size_max - b = (a - b) + size_max" by simp
  then have "sz_sub a b = ((a - b) + size_max) mod size_max" by (simp only: sz_sub_def)
  also have "\<dots> = (a - b) mod size_max" by simp
  also have "\<dots> = a - b" using a by simp
  finally show ?thesis .
qed

lemma reverse_segment_nth:
  "en < length xs \<Longrightarrow> start \<le> en + 1 \<Longrightarrow>
   \<exists>r. reverse_segment xs start en = Inr r \<and> length r = length xs \<and>
       (\<forall>k < length xs. r ! k = (if start \<le> k \<and> k \<le> en then xs ! (start + en - k) else xs ! k))"
proof (induction xs start en rule: reverse_segment.induct)
  case (1 tour start en)
  show ?case
  proof (cases "start < en")
    case False
    then show ?thesis using 1(3)
      by (subst reverse_segment.simps) (auto intro: arg_cong [where f = "nth tour"])
  next
    case True
    let ?t = "tour[start := tour ! en, en := tour ! start]"
    from True 1(2) have "en - 1 < length ?t" "start + 1 \<le> en - 1 + 1" by auto
    from 1(1) [OF True 1(2) this] obtain r where
      r: "reverse_segment ?t (start + 1) (en - 1) = Inr r" "length r = length ?t"
      "\<forall>k < length ?t. r ! k = (if start + 1 \<le> k \<and> k \<le> en - 1 then ?t ! (start + 1 + (en - 1) - k) else ?t ! k)"
      by blast
    have "reverse_segment tour start en = Inr r"
      using True 1(2) r(1) by (subst reverse_segment.simps) simp
    moreover have "length r = length tour" using r(2) by simp
    moreover have "\<forall>k < length tour. r ! k = (if start \<le> k \<and> k \<le> en then tour ! (start + en - k) else tour ! k)"
    proof (intro allI impI)
      fix k assume k: "k < length tour"
      then have "r ! k = (if start + 1 \<le> k \<and> k \<le> en - 1 then ?t ! (start + 1 + (en - 1) - k) else ?t ! k)"
        using r(3) by simp
      then show "r ! k = (if start \<le> k \<and> k \<le> en then tour ! (start + en - k) else tour ! k)"
        using True 1(2) k by (auto simp: nth_list_update)
    qed
    ultimately show ?thesis by blast
  qed
qed

lemma reverse_segment_eq:
  assumes "en < length xs" "start \<le> en + 1"
  shows "reverse_segment xs start en =
         Inr (take start xs @ rev (take (en + 1 - start) (drop start xs)) @ drop (en + 1) xs)"
proof -
  from reverse_segment_nth [OF assms] obtain r where
    r: "reverse_segment xs start en = Inr r" "length r = length xs"
      "\<forall>k < length xs. r ! k = (if start \<le> k \<and> k \<le> en then xs ! (start + en - k) else xs ! k)"
    by blast
  have "r = take start xs @ rev (take (en + 1 - start) (drop start xs)) @ drop (en + 1) xs"
  proof (rule nth_equalityI)
    show "length r = length (take start xs @ rev (take (en + 1 - start) (drop start xs)) @ drop (en + 1) xs)"
      using r(2) assms by auto
  next
    fix k assume "k < length r"
    then have k: "k < length xs" using r(2) by simp
    show "r ! k = (take start xs @ rev (take (en + 1 - start) (drop start xs)) @ drop (en + 1) xs) ! k"
      using r(3) k assms
      by (auto simp: nth_append rev_nth min_def intro!: arg_cong [where f = "nth xs"])
  qed
  with r(1) show ?thesis by simp
qed

lemma split3:
  assumes "i \<le> j" "j < length xs"
  obtains A B C where "xs = A @ B @ C" "length A = i" "length B = j + 1 - i"
    "A = take i xs" "B = take (j + 1 - i) (drop i xs)" "C = drop (j + 1) xs"
proof -
  have "take i xs @ take (j + 1 - i) (drop i xs) = take (i + (j + 1 - i)) xs"
    by (simp only: take_add)
  also have "i + (j + 1 - i) = j + 1" using assms by simp
  finally have "xs = take i xs @ take (j + 1 - i) (drop i xs) @ drop (j + 1) xs"
    by (metis append_assoc append_take_drop_id)
  moreover have "length (take i xs) = i" "length (take (j + 1 - i) (drop i xs)) = j + 1 - i"
    using assms by auto
  ultimately show ?thesis using that by blast
qed

lemma smart_reverse_segment_eq:
  assumes "i \<le> j" "j < length xs" "length xs < size_max"
  shows "smart_reverse_segment xs i j =
     Inr (if 2 * (j - i + 1) \<le> length xs
          then take i xs @ rev (take (j + 1 - i) (drop i xs)) @ drop (j + 1) xs
          else drop (j + 1) xs @ rev (take (j + 1 - i) (drop i xs)) @ take i xs)"
proof -
  from split3 [OF assms(1,2)] obtain A B C where
    xs: "xs = A @ B @ C" and la: "length A = i" and lb: "length B = j + 1 - i"
    and defs: "A = take i xs" "B = take (j + 1 - i) (drop i xs)" "C = drop (j + 1) xs"
    by blast
  have w: "sz_sub (length xs) (j - i + 1) = length xs - (j - i + 1)"
    using assms by (intro sz_sub_simp) auto
  show ?thesis
  proof (cases "2 * (j - i + 1) \<le> length xs")
    case True
    then have "j - i + 1 \<le> sz_sub (length xs) (j - i + 1)" using w by simp
    then show ?thesis using True assms
      by (simp add: smart_reverse_segment_def Let_def reverse_segment_eq)
  next
    case False
    then have d: "\<not> j - i + 1 \<le> sz_sub (length xs) (j - i + 1)" using w by simp
    have s1: "std_reverse xs 0 i = Inr (rev A @ B @ C)"
      using la by (simp add: std_reverse_def xs)
    have s2: "std_reverse (rev A @ B @ C) (j + 1) (length xs) = Inr (rev A @ B @ rev C)"
      using la lb assms by (simp add: std_reverse_def xs)
    have s3: "std_reverse (rev A @ B @ rev C) 0 (length xs) = Inr (C @ rev B @ A)"
      by (simp add: std_reverse_def xs)
    have "smart_reverse_segment xs i j = Inr (C @ rev B @ A)"
      using d assms(1) s1 s2 s3 by (simp add: smart_reverse_segment_def Let_def)
    then show ?thesis using False defs by simp
  qed
qed

lemma reverse_segment_mset: "reverse_segment xs start en = Inr ys \<Longrightarrow> mset ys = mset xs"
proof (induction xs start en rule: reverse_segment.induct)
  case (1 tour start en)
  show ?case
  proof (cases "start < en")
    case False
    then show ?thesis using 1(2) by (subst (asm) reverse_segment.simps) simp
  next
    case True
    with 1(2) have en: "en < length tour"
      by (subst (asm) reverse_segment.simps) (auto split: if_splits)
    with True 1(2) have "reverse_segment (tour[start := tour ! en, en := tour ! start]) (start + 1) (en - 1) = Inr ys"
      by (subst (asm) reverse_segment.simps) simp
    from 1(1) [OF True en this] have "mset ys = mset (tour[start := tour ! en, en := tour ! start])" .
    also have "\<dots> = mset tour" using True en by (simp add: mset_swap)
    finally show ?thesis .
  qed
qed

lemma std_reverse_mset: "std_reverse xs a b = Inr ys \<Longrightarrow> mset ys = mset xs"
proof -
  assume h: "std_reverse xs a b = Inr ys"
  then have ab: "a \<le> b" "b \<le> length xs"
    and ys: "ys = take a xs @ rev (take (b - a) (drop a xs)) @ drop b xs"
    by (auto simp: std_reverse_def split: if_splits)
  have "take a xs @ take (b - a) (drop a xs) = take (a + (b - a)) xs"
    by (simp only: take_add)
  then have "take a xs @ take (b - a) (drop a xs) @ drop b xs = xs"
    using ab by (metis append_assoc append_take_drop_id le_add_diff_inverse)
  then have "mset xs = mset (take a xs) + mset (take (b - a) (drop a xs)) + mset (drop b xs)"
    by (metis mset_append append_assoc)
  then show ?thesis using ys by simp
qed

lemma smart_reverse_segment_mset: "smart_reverse_segment xs i j = Inr ys \<Longrightarrow> mset ys = mset xs"
  by (auto simp: smart_reverse_segment_def Let_def bindE_eq_Inr
      dest!: reverse_segment_mset std_reverse_mset split: if_splits)

lemma perform_2opt_swap_mset: "perform_2opt_swap xs i j = Inr ys \<Longrightarrow> mset ys = mset xs"
  by (auto simp: perform_2opt_swap_def Let_def dest: smart_reverse_segment_mset)

subsection \<open>The tour of five points\<close>

lemma perform_2opt_swap_tour5: "perform_2opt_swap tour5 0 3 = Inr tour5_rev"
  by (simp add: perform_2opt_swap_def smart_reverse_segment_def sz_sub_def size_max_def
      std_reverse_def tour5_def tour5_rev_def)

lemma perform_2opt_swap_tour5_rev: "perform_2opt_swap tour5_rev 0 3 = Inr tour5"
  by (simp add: perform_2opt_swap_def smart_reverse_segment_def sz_sub_def size_max_def
      std_reverse_def tour5_def tour5_rev_def)

lemma gain_tour5: "calculate_2opt_gain tour5 0 3 = Inr 2"
  by (simp add: calculate_2opt_gain_def sz_sub_def size_max_def vec_at_def tour5_def
      new_Point_def distance_def)

lemma tour_length_tour5: "tour_length tour5 = 14"
  by (simp add: tour_length_def tour5_def upt_conv_Cons new_Point_def distance_def)

lemma tour_length_tour5_rev: "tour_length tour5_rev = 14"
  by (simp add: tour_length_def tour5_rev_def upt_conv_Cons new_Point_def distance_def)

subsection \<open>Folds in the error monad\<close>

lemma foldE_id: "(\<And>x s. x \<in> set xs \<Longrightarrow> f x s = Inr s) \<Longrightarrow> foldE f xs s = Inr s"
  by (induction xs) simp_all

lemma foldE_append: "foldE f (xs @ ys) s = bindE (foldE f xs s) (foldE f ys)"
  by (induction xs arbitrary: s) (simp_all add: bindE_def split: sum.splits)

lemma foldE_invariant:
  assumes "foldE f xs s = Inr s'" and "P s"
    and "\<And>x t t'. x \<in> set xs \<Longrightarrow> P t \<Longrightarrow> f x t = Inr t' \<Longrightarrow> P t'"
  shows "P s'"
  using assms
proof (induction xs arbitrary: s)
  case Nil
  from Nil(1) have "s' = s" by simp
  then show ?case using Nil(2) by (simp only:)
next
  case (Cons x xs)
  from Cons.prems(1) obtain t where t: "f x s = Inr t" "foldE f xs t = Inr s'"
    by (auto simp: bindE_eq_Inr)
  have "x \<in> set (x # xs)" by simp
  then have pt: "P t" using Cons.prems(2) t(1) by (rule Cons.prems(3))
  show ?case
  proof (rule Cons.IH [OF t(2) pt])
    fix y u u' assume "y \<in> set xs" and u: "P u" "f y u = Inr u'"
    then have "y \<in> set (x # xs)" by simp
    then show "P u'" using u by (rule Cons.prems(3))
  qed
qed

subsection \<open>The optimizers on the empty tour\<close>

lemma sz_sub_0_2: "sz_sub 0 2 = 18446744073709551614"
  by (simp add: sz_sub_def size_max_def)

lemma basic_2opt_empty:
  "basic_2opt [] = Inr ([], new_stats\<lparr>iterations := 1\<rparr>)"
proof -
  have s: "basic_search [] c = Inr (new_search c)" for c
    unfolding basic_search_def by (rule foldE_id) simp
  have p: "basic_pass [] st = Inr ([], st\<lparr>iterations := iterations st + 1\<rparr>, False)" for st
    by (simp add: basic_pass_def s Let_def new_search_def)
  show ?thesis
    by (simp add: basic_2opt_def Let_def basic_loop.simps [of "[]"] p new_stats_def
        max_iterations_def tour_length_def)
qed

lemma geometric_2opt_empty: "geometric_2opt ne [] = Inl OutOfBounds"
proof -
  have "[0..<sz_sub 0 2] = 0 # [Suc 0..<sz_sub 0 2]"
    by (rule upt_conv_Cons) (simp add: sz_sub_0_2)
  then have p: "geometric_pass ne [] st kd = Inl OutOfBounds" for st kd
    by (simp add: geometric_pass_def Let_def geometric_visit_def vec_at_def)
  show ?thesis
    by (simp add: geometric_2opt_def Let_def geometric_loop.simps [of _ "[]"] p new_stats_def
        max_iterations_def)
qed

lemma approximate_2opt_empty:
  "approximate_2opt rnd [] = Inr ([], new_stats\<lparr>iterations := 1\<rparr>)"
proof -
  have p: "approximate_pass rnd [] st
      = Inr ([], st\<lparr>iterations := iterations st + 1, active_nodes := 0\<rparr>, False)" for st
    by (simp add: approximate_pass_def Let_def active_indices_def approximate_search_def
        new_search_def activate_random_def)
  show ?thesis
    by (simp add: approximate_2opt_def Let_def approximate_loop.simps [of _ "[]"] p new_stats_def
        max_iterations_def tour_length_def activate_all_def)
qed

lemma bindO_simps [simp]:
  "bindO None f = None"
  "bindO (Some (Inl e)) f = Some (Inl e)"
  "bindO (Some (Inr v)) f = f v"
  by (simp_all add: bindO_def)

lemma hybrid_2opt_empty:
  "hybrid_2opt ne [] = Some (Inr ([], new_stats\<lparr>iterations := 1\<rparr>))"
proof -
  have p: "hybrid_pass ne [] st kd
      = Some (Inr ([], st\<lparr>iterations := iterations st + 1, active_nodes := 0,
                num_visited := num_visited st\<rparr>, kd\<lparr>nodes_visited := 0\<rparr>, False))" for st kd
    by (simp add: hybrid_pass_def Let_def active_indices_def new_kd_search_def
        activate_every_second_def deactivate_all_def)
  show ?thesis
    by (simp add: hybrid_2opt_def Let_def hybrid_loop.simps [of _ "[]"] p new_stats_def
        max_iterations_def tour_length_def activate_all_def)
qed

subsection \<open>The k-d tree on small inputs\<close>

lemma build_empty [simp]: "build ne kd [] = kd"
  by (simp add: build_def)

lemma build_size: "points \<noteq> [] \<Longrightarrow> kd_size (build ne kd points) = length points"
  by (simp add: build_def)

lemma build_single:
  "build nth_element_sort new_KDTree [new_Point 0 0 0]
   = \<lparr>kd_root = KDNode (new_Point 0 0 0) Null Null 0, kd_size = 1, nodes_visited = 0\<rparr>"
  by (simp add: build_def build_rec.simps new_KDTree_def nth_element_range_def
      nth_element_sort_def Let_def)

lemma adaptive_loop_cap: "2 \<le> radius \<Longrightarrow> adaptive_loop node query m radius s = Some s"
  by (subst adaptive_loop.simps) simp

lemma find_neighbors_adaptive_cap:
  "2 \<le> radius \<Longrightarrow> find_neighbors_adaptive kd query radius m = Some ([], kd)"
  by (simp add: find_neighbors_adaptive_def adaptive_loop_cap)

lemma find_neighbors_single:
  "fst (find_neighbors \<lparr>kd_root = KDNode (new_Point 0 0 0) Null Null 0, kd_size = n,
      nodes_visited = v\<rparr> (new_Point 0 0 0) 2) = [new_Point 0 0 0]"
  by (simp add: find_neighbors_def distance_squared_def new_Point_def Let_def)

subsection \<open>What the passes preserve\<close>

lemma perform_2opt_swap_coords:
  "perform_2opt_swap xs i j = Inr ys \<Longrightarrow> mset (map coords ys) = mset (map coords xs)"
  by (drule perform_2opt_swap_mset) simp

lemma activate_coords: "activate idx tour = Inr t \<Longrightarrow> map coords t = map coords tour"
  by (auto simp: activate_def map_update coords_def list_update_same_conv split: if_splits)

lemma activate_all_coords [simp]: "map coords (activate_all tour) = map coords tour"
  by (simp add: activate_all_def coords_def)

lemma deactivate_all_coords [simp]: "map coords (deactivate_all tour) = map coords tour"
  by (simp add: deactivate_all_def coords_def)

lemma activate_around_coords:
  assumes "activate_around offsets bi bj tour = Inr t"
  shows "map coords t = map coords tour"
proof (rule foldE_invariant [where P = "\<lambda>u. map coords u = map coords tour",
      OF assms [unfolded activate_around_def]])
  show "map coords tour = map coords tour" ..
next
  fix x u u'
  assume u: "map coords u = map coords tour"
    and "bindE (offset_index bi (length tour) x) (\<lambda>a.
         bindE (offset_index bj (length tour) x) (\<lambda>b. bindE (activate a u) (activate b))) = Inr u'"
  then obtain a b v where "activate a u = Inr v" "activate b v = Inr u'"
    by (auto simp: bindE_eq_Inr)
  then have "map coords u' = map coords u"
    by (metis activate_coords)
  with u show "map coords u' = map coords tour" by simp
qed

lemma activate_random_coords:
  assumes "activate_random rnd cnt tour = Inr t"
  shows "map coords t = map coords tour"
proof (rule foldE_invariant [where P = "\<lambda>u. map coords u = map coords tour",
      OF assms [unfolded activate_random_def]])
  show "map coords tour = map coords tour" ..
next
  fix x u u'
  assume "map coords u = map coords tour" "activate (rnd x) u = Inr u'"
  then show "map coords u' = map coords tour" by (auto dest: activate_coords)
qed

lemma activate_every_second_coords:
  assumes "activate_every_second k tour = Inr t"
  shows "map coords t = map coords tour"
proof (rule foldE_invariant [where P = "\<lambda>u. map coords u = map coords tour",
      OF assms [unfolded activate_every_second_def]])
  show "map coords tour = map coords tour" ..
next
  fix x u u'
  assume "map coords u = map coords tour" "(if x < length u then activate x u else Inr u) = Inr u'"
  then show "map coords u' = map coords tour" by (auto dest: activate_coords split: if_splits)
qed

lemma coords_mset: "map coords a = map coords b \<Longrightarrow> mset (map coords a) = mset (map coords b)"
  by simp

lemma basic_pass_coords:
  "basic_pass T st = Inr (T', st', b) \<Longrightarrow> mset (map coords T') = mset (map coords T)"
  by (auto simp: basic_pass_def Let_def bindE_eq_Inr dest: perform_2opt_swap_coords
      split: if_splits)

lemma geometric_pass_coords:
  "geometric_pass ne T st kd = Inr (T', st', kd', b) \<Longrightarrow>
   mset (map coords T') = mset (map coords T)"
  by (auto simp: geometric_pass_def Let_def bindE_eq_Inr dest: perform_2opt_swap_coords
      split: if_splits)

lemma approximate_pass_coords:
  assumes "approximate_pass rnd T st = Inr (T', st', b)"
  shows "mset (map coords T') = mset (map coords T)"
proof -
  from assms consider
    (swap) t1 and s :: search where "perform_2opt_swap T (best_i s) (best_j s) = Inr t1"
      "activate_around [-2, -1, 0, 1, 2] (best_i s) (best_j s) (deactivate_all t1) = Inr T'"
  | (none) k where "activate_random rnd k T = Inr T'"
    by (auto simp: approximate_pass_def Let_def bindE_eq_Inr split: if_splits)
  then show ?thesis
  proof cases
    case swap
    from activate_around_coords [OF swap(2)] have "map coords T' = map coords t1" by simp
    then have "mset (map coords T') = mset (map coords t1)" by (rule coords_mset)
    with perform_2opt_swap_coords [OF swap(1)] show ?thesis by simp
  next
    case none
    from activate_random_coords [OF none] show ?thesis by (rule coords_mset)
  qed
qed

lemma bindO_eq_Some_Inr:
  "bindO m f = Some (Inr y) \<longleftrightarrow> (\<exists>v. m = Some (Inr v) \<and> f v = Some (Inr y))"
  by (auto simp: bindO_def split: option.splits sum.splits)

lemma hybrid_pass_coords:
  assumes "hybrid_pass ne T st kd = Some (Inr (T', st', kd', b))"
  shows "mset (map coords T') = mset (map coords T)"
proof -
  from assms consider
    (swap) t1 and s :: kd_search where "perform_2opt_swap T (best_i s) (best_j s) = Inr t1"
      "activate_around [-4, -3, -2, -1, 0, 1, 2, 3, 4] (best_i s) (best_j s) (deactivate_all t1)
         = Inr T'"
  | (none) k where "activate_every_second k (deactivate_all T) = Inr T'"
    by (auto simp: hybrid_pass_def Let_def bindE_eq_Inr bindO_eq_Some_Inr split: if_splits)
  then show ?thesis
  proof cases
    case swap
    from activate_around_coords [OF swap(2)] have "map coords T' = map coords t1" by simp
    then have "mset (map coords T') = mset (map coords t1)" by (rule coords_mset)
    with perform_2opt_swap_coords [OF swap(1)] show ?thesis by simp
  next
    case none
    from activate_every_second_coords [OF none] have "map coords T' = map coords T" by simp
    then show ?thesis by (rule coords_mset)
  qed
qed

lemma optimizer_pass_coords:
  "optimizer_pass ne rnd T T' \<Longrightarrow> mset (map coords T') = mset (map coords T)"
proof (induction rule: optimizer_pass.induct)
  case (pass_basic T st T' st' b)
  then show ?case by (rule basic_pass_coords)
next
  case (pass_geometric T st kd T' st' kd' b)
  then show ?case by (rule geometric_pass_coords)
next
  case (pass_approximate T st T' st' b)
  then show ?case by (rule approximate_pass_coords)
next
  case (pass_hybrid T st kd T' st' kd' b)
  then show ?case by (rule hybrid_pass_coords)
next
  case (pass_activate T)
  show ?case by simp
qed

lemma optimizer_passes_coords:
  "(optimizer_pass ne rnd)\<^sup>*\<^sup>* T T' \<Longrightarrow> mset (map coords T') = mset (map coords T)"
  by (induction rule: rtranclp_induct) (auto dest: optimizer_pass_coords)

subsection \<open>The loops run passes\<close>

lemma basic_loop_passes:
  "basic_loop T st b = Inr (T', st') \<Longrightarrow> (optimizer_pass ne rnd)\<^sup>*\<^sup>* T T'"
proof (induction T st b rule: basic_loop.induct)
  case (1 tour stats improved)
  show ?case
  proof (cases "improved \<and> iterations stats < max_iterations")
    case True
    with 1(2) obtain r where r: "basic_pass tour stats = Inr r"
      "basic_loop (fst r) (fst (snd r)) (snd (snd r)) = Inr (T', st')"
      by (subst (asm) basic_loop.simps) (auto simp: bindE_eq_Inr)
    from r(1) have "basic_pass tour stats = Inr (fst r, fst (snd r), snd (snd r))" by simp
    then have "optimizer_pass ne rnd tour (fst r)" by (rule pass_basic)
    moreover have "(optimizer_pass ne rnd)\<^sup>*\<^sup>* (fst r) T'" by (rule 1(1) [OF True r])
    ultimately show ?thesis by (rule converse_rtranclp_into_rtranclp)
  next
    case False
    with 1(2) have "T' = tour" by (subst (asm) basic_loop.simps) auto
    then show ?thesis by simp
  qed
qed

lemma geometric_loop_passes:
  "geometric_loop ne T st kd b = Inr (T', st') \<Longrightarrow> (optimizer_pass ne rnd)\<^sup>*\<^sup>* T T'"
proof (induction ne T st kd b rule: geometric_loop.induct)
  case (1 ne tour stats kd improved)
  show ?case
  proof (cases "improved \<and> iterations stats < max_iterations")
    case True
    with 1(2) obtain r where r: "geometric_pass ne tour stats kd = Inr r"
      "geometric_loop ne (fst r) (fst (snd r)) (fst (snd (snd r))) (snd (snd (snd r)))
         = Inr (T', st')"
      by (subst (asm) geometric_loop.simps) (auto simp: bindE_eq_Inr)
    from r(1) have "geometric_pass ne tour stats kd
        = Inr (fst r, fst (snd r), fst (snd (snd r)), snd (snd (snd r)))" by simp
    then have "optimizer_pass ne rnd tour (fst r)" by (rule pass_geometric)
    moreover have "(optimizer_pass ne rnd)\<^sup>*\<^sup>* (fst r) T'" by (rule 1(1) [OF True r])
    ultimately show ?thesis by (rule converse_rtranclp_into_rtranclp)
  next
    case False
    with 1(2) have "T' = tour" by (subst (asm) geometric_loop.simps) auto
    then show ?thesis by simp
  qed
qed

lemma approximate_loop_passes:
  "approximate_loop rnd T st b = Inr (T', st') \<Longrightarrow> (optimizer_pass ne rnd)\<^sup>*\<^sup>* T T'"
proof (induction rnd T st b rule: approximate_loop.induct)
  case (1 rnd tour stats improved)
  show ?case
  proof (cases "improved \<and> iterations stats < max_iterations")
    case True
    with 1(2) obtain r where r: "approximate_pass rnd tour stats = Inr r"
      "approximate_loop rnd (fst r) (fst (snd r)) (snd (snd r)) = Inr (T', st')"
      by (subst (asm) approximate_loop.simps) (auto simp: bindE_eq_Inr)
    from r(1) have "approximate_pass rnd tour stats = Inr (fst r, fst (snd r), snd (snd r))"
      by simp
    then have "optimizer_pass ne rnd tour (fst r)" by (rule pass_approximate)
    moreover have "(optimizer_pass ne rnd)\<^sup>*\<^sup>* (fst r) T'" by (rule 1(1) [OF True r])
    ultimately show ?thesis by (rule converse_rtranclp_into_rtranclp)
  next
    case False
    with 1(2) have "T' = tour" by (subst (asm) approximate_loop.simps) auto
    then show ?thesis by simp
  qed
qed

lemma hybrid_loop_passes:
  "hybrid_loop ne T st kd b = Some (Inr (T', st')) \<Longrightarrow> (optimizer_pass ne rnd)\<^sup>*\<^sup>* T T'"
proof (induction ne T st kd b rule: hybrid_loop.induct)
  case (1 ne tour stats kd improved)
  show ?case
  proof (cases "improved \<and> iterations stats < max_iterations")
    case True
    with 1(2) obtain r where r: "hybrid_pass ne tour stats kd = Some (Inr r)"
      "hybrid_loop ne (fst r) (fst (snd r)) (fst (snd (snd r))) (snd (snd (snd r)))
         = Some (Inr (T', st'))"
      by (subst (asm) hybrid_loop.simps) (auto simp: bindO_eq_Some_Inr)
    from r(1) have "hybrid_pass ne tour stats kd
        = Some (Inr (fst r, fst (snd r), fst (snd (snd r)), snd (snd (snd r))))" by simp
    then have "optimizer_pass ne rnd tour (fst r)" by (rule pass_hybrid)
    moreover have "(optimizer_pass ne rnd)\<^sup>*\<^sup>* (fst r) T'" by (rule 1(1) [OF True r])
    ultimately show ?thesis by (rule converse_rtranclp_into_rtranclp)
  next
    case False
    with 1(2) have "T' = tour" by (subst (asm) hybrid_loop.simps) auto
    then show ?thesis by simp
  qed
qed

lemma run_optimizer_passes:
  assumes "run_optimizer opt ne rnd T = Some (Inr r)"
  shows "(optimizer_pass ne rnd)\<^sup>*\<^sup>* T (fst r)"
proof (cases opt)
  case Basic
  with assms obtain r' where "basic_loop T (new_stats\<lparr>initial_length := tour_length T\<rparr>) True = Inr r'"
    "fst r = fst r'"
    by (auto simp: basic_2opt_def Let_def bindE_eq_Inr)
  then show ?thesis using basic_loop_passes [of T _ True "fst r'" "snd r'"] by simp
next
  case Geometric
  with assms obtain r' where "geometric_loop ne T (new_stats\<lparr>initial_length := tour_length T\<rparr>)
      (build ne new_KDTree T) True = Inr r'" "fst r = fst r'"
    by (auto simp: geometric_2opt_def Let_def bindE_eq_Inr)
  then show ?thesis using geometric_loop_passes [of ne T _ _ True "fst r'" "snd r'"] by simp
next
  case Approximate
  with assms obtain r' where "approximate_loop rnd (activate_all T)
      (new_stats\<lparr>initial_length := tour_length T\<rparr>) True = Inr r'" "fst r = fst r'"
    by (auto simp: approximate_2opt_def Let_def bindE_eq_Inr)
  then have "(optimizer_pass ne rnd)\<^sup>*\<^sup>* (activate_all T) (fst r)"
    using approximate_loop_passes [of rnd "activate_all T" _ True "fst r'" "snd r'"] by simp
  moreover have "optimizer_pass ne rnd T (activate_all T)" by (rule pass_activate)
  ultimately show ?thesis by (rule converse_rtranclp_into_rtranclp [rotated])
next
  case Hybrid
  with assms obtain r' where "hybrid_loop ne (activate_all T)
      (new_stats\<lparr>initial_length := tour_length T\<rparr>) (build ne new_KDTree T) True = Some (Inr r')"
    "fst r = fst r'"
    by (auto simp: hybrid_2opt_def Let_def bindO_eq_Some_Inr)
  then have "(optimizer_pass ne rnd)\<^sup>*\<^sup>* (activate_all T) (fst r)"
    using hybrid_loop_passes [of ne "activate_all T" _ _ True "fst r'" "snd r'"] by simp
  moreover have "optimizer_pass ne rnd T (activate_all T)" by (rule pass_activate)
  ultimately show ?thesis by (rule converse_rtranclp_into_rtranclp [rotated])
qed

subsection \<open>The validity test\<close>

lemma mark_seen_Some:
  "mark_seen tour seen = Some seen' \<longleftrightarrow>
   distinct (map pid tour) \<and> (\<forall>p \<in> set tour. \<not> seen (pid p)) \<and>
   seen' = (\<lambda>k. seen k \<or> k \<in> pid ` set tour)"
proof (induction tour arbitrary: seen)
  case Nil
  then show ?case by auto
next
  case (Cons p ps)
  show ?case
  proof (cases "seen (pid p)")
    case True
    then show ?thesis by auto
  next
    case False
    have a: "(\<forall>q \<in> set ps. \<not> (seen(pid p := True)) (pid q))
        \<longleftrightarrow> pid p \<notin> pid ` set ps \<and> (\<forall>q \<in> set ps. \<not> seen (pid q))"
    proof -
      have "pid p \<notin> pid ` set ps \<longleftrightarrow> (\<forall>q \<in> set ps. pid q \<noteq> pid p)"
        by (simp add: image_iff) metis
      then show ?thesis by (simp add: ball_conj_distrib) blast
    qed
    have b: "(\<lambda>k. (seen(pid p := True)) k \<or> k \<in> pid ` set ps)
        = (\<lambda>k. seen k \<or> k \<in> pid ` set (p # ps))"
      by (rule ext) auto
    have "mark_seen (p # ps) seen = Some seen'
        \<longleftrightarrow> mark_seen ps (seen(pid p := True)) = Some seen'"
      using False by simp
    also have "\<dots> \<longleftrightarrow> distinct (map pid ps) \<and>
        (\<forall>q \<in> set ps. \<not> (seen(pid p := True)) (pid q)) \<and>
        seen' = (\<lambda>k. (seen(pid p := True)) k \<or> k \<in> pid ` set ps)"
      by (rule Cons.IH)
    also have "\<dots> \<longleftrightarrow> distinct (map pid (p # ps)) \<and>
        (\<forall>q \<in> set (p # ps). \<not> seen (pid q)) \<and>
        seen' = (\<lambda>k. seen k \<or> k \<in> pid ` set (p # ps))"
      unfolding a b using False by auto
    finally show ?thesis .
  qed
qed

lemma is_valid_tour_iff:
  "is_valid_tour tour original_points \<longleftrightarrow>
   length tour = length original_points \<and> distinct (map pid tour) \<and>
   pid ` set original_points \<subseteq> pid ` set tour"
proof (cases "mark_seen tour (\<lambda>k. False)")
  case None
  then have "\<not> distinct (map pid tour)"
    using mark_seen_Some [of tour "\<lambda>k. False"] by auto
  with None show ?thesis by (simp add: is_valid_tour_def)
next
  case (Some seen')
  then have "distinct (map pid tour)" "seen' = (\<lambda>k. k \<in> pid ` set tour)"
    using mark_seen_Some [of tour "\<lambda>k. False" seen'] by auto
  with Some show ?thesis by (auto simp: is_valid_tour_def list_all_iff)
qed

lemma is_valid_tour_permutation:
  assumes "distinct (map pid T0)" "mset (map pid T) = mset (map pid T0)"
  shows "is_valid_tour T T0"
proof -
  from assms(2) have "length (map pid T) = length (map pid T0)" by (rule mset_eq_length)
  moreover from assms have "distinct (map pid T)" by (metis mset_eq_imp_distinct_iff)
  moreover from assms(2) have "set (map pid T) = set (map pid T0)" by (rule mset_eq_setD)
  ultimately show ?thesis by (simp add: is_valid_tour_iff)
qed

lemma coords_pid: "mset (map coords a) = mset (map coords b) \<Longrightarrow> mset (map pid a) = mset (map pid b)"
proof -
  assume "mset (map coords a) = mset (map coords b)"
  then have "image_mset (\<lambda>c. snd (snd c)) (mset (map coords a))
      = image_mset (\<lambda>c. snd (snd c)) (mset (map coords b))" by simp
  then show ?thesis by (simp add: coords_def image_mset.compositionality comp_def)
qed

lemma basic_search_tour5:
  "basic_search tour5 c = Inr \<lparr>best_gain = 2, best_i = 0, best_j = 3, comparisons = c + 5\<rparr>"
  by (simp add: basic_search_def tour5_def sz_sub_def sz_add_def size_max_def upt_conv_Cons
      try_swap_def calculate_2opt_gain_def vec_at_def new_Point_def distance_def
      new_search_def min_improvement_def Let_def)

lemma basic_search_tour5_rev:
  "basic_search tour5_rev c = Inr \<lparr>best_gain = 2, best_i = 0, best_j = 3, comparisons = c + 5\<rparr>"
  by (simp add: basic_search_def tour5_rev_def sz_sub_def sz_add_def size_max_def upt_conv_Cons
      try_swap_def calculate_2opt_gain_def vec_at_def new_Point_def distance_def
      new_search_def min_improvement_def Let_def)

lemma basic_pass_tour5:
  "basic_pass tour5 st = Inr (tour5_rev, st\<lparr>iterations := iterations st + 1,
     total_comparisons := total_comparisons st + 5, num_swaps := num_swaps st + 1\<rparr>, True)"
  by (simp add: basic_pass_def basic_search_tour5 perform_2opt_swap_tour5 Let_def
      min_improvement_def)

lemma basic_pass_tour5_rev:
  "basic_pass tour5_rev st = Inr (tour5, st\<lparr>iterations := iterations st + 1,
     total_comparisons := total_comparisons st + 5, num_swaps := num_swaps st + 1\<rparr>, True)"
  by (simp add: basic_pass_def basic_search_tour5_rev perform_2opt_swap_tour5_rev Let_def
      min_improvement_def)

lemma basic_loop_tour5:
  "iterations st + 2 * k = max_iterations \<Longrightarrow>
   basic_loop tour5 st True = Inr (tour5, st\<lparr>iterations := max_iterations,
     total_comparisons := total_comparisons st + 10 * k, num_swaps := num_swaps st + 2 * k\<rparr>)"
proof (induction k arbitrary: st)
  case 0
  then show ?case by (subst basic_loop.simps) simp
next
  case (Suc k)
  let ?st1 = "st\<lparr>iterations := iterations st + 1,
     total_comparisons := total_comparisons st + 5, num_swaps := num_swaps st + 1\<rparr>"
  let ?st2 = "?st1\<lparr>iterations := iterations ?st1 + 1,
     total_comparisons := total_comparisons ?st1 + 5, num_swaps := num_swaps ?st1 + 1\<rparr>"
  from Suc.prems have lt: "iterations st < max_iterations" "iterations ?st1 < max_iterations"
    and it: "iterations ?st2 + 2 * k = max_iterations" by simp_all
  have "basic_loop tour5 st True = basic_loop tour5_rev ?st1 True"
    using lt(1) by (subst basic_loop.simps) (simp add: basic_pass_tour5)
  also have "\<dots> = basic_loop tour5 ?st2 True"
    using lt(2) by (subst basic_loop.simps) (simp add: basic_pass_tour5_rev)
  also have "\<dots> = Inr (tour5, ?st2\<lparr>iterations := max_iterations,
     total_comparisons := total_comparisons ?st2 + 10 * k, num_swaps := num_swaps ?st2 + 2 * k\<rparr>)"
    by (rule Suc.IH [OF it])
  finally show ?case by simp
qed

lemma basic_2opt_tour5:
  "basic_2opt tour5 = Inr (tour5, \<lparr>initial_length = 14, final_length = 14, num_swaps = 1000,
     num_visited = 0, total_comparisons = 5000, iterations = 1000, active_nodes = 0\<rparr>)"
proof -
  have "iterations (new_stats\<lparr>initial_length := tour_length tour5\<rparr>) + 2 * 500 = max_iterations"
    by (simp add: new_stats_def max_iterations_def)
  from basic_loop_tour5 [OF this] show ?thesis
    by (simp add: basic_2opt_def Let_def tour_length_tour5 new_stats_def max_iterations_def)
qed

subsection \<open>The tour of four points\<close>

lemma tour_length_tour4: "tour_length tour4 = 18"
  by (simp add: tour_length_def tour4_def upt_conv_Cons new_Point_def distance_def)

lemma tour_length_tour4_opt: "tour_length tour4_opt = 14"
  by (simp add: tour_length_def tour4_opt_def upt_conv_Cons new_Point_def distance_def)

lemma perform_2opt_swap_tour4: "perform_2opt_swap tour4 0 2 = Inr tour4_opt"
  by (simp add: perform_2opt_swap_def smart_reverse_segment_def sz_sub_def size_max_def
      reverse_segment.simps tour4_def tour4_opt_def)

lemma basic_search_tour4:
  "basic_search tour4 c = Inr \<lparr>best_gain = 4, best_i = 0, best_j = 2, comparisons = c + 2\<rparr>"
  by (simp add: basic_search_def tour4_def sz_sub_def sz_add_def size_max_def upt_conv_Cons
      try_swap_def calculate_2opt_gain_def vec_at_def new_Point_def distance_def
      new_search_def min_improvement_def Let_def)

lemma basic_search_tour4_opt:
  "basic_search tour4_opt c
   = Inr \<lparr>best_gain = min_improvement, best_i = 0, best_j = 0, comparisons = c + 2\<rparr>"
  by (simp add: basic_search_def tour4_opt_def sz_sub_def sz_add_def size_max_def upt_conv_Cons
      try_swap_def calculate_2opt_gain_def vec_at_def new_Point_def distance_def
      new_search_def min_improvement_def Let_def)

lemma basic_pass_tour4:
  "basic_pass tour4 st = Inr (tour4_opt, st\<lparr>iterations := iterations st + 1,
     total_comparisons := total_comparisons st + 2, num_swaps := num_swaps st + 1\<rparr>, True)"
  by (simp add: basic_pass_def basic_search_tour4 perform_2opt_swap_tour4 Let_def
      min_improvement_def)

lemma basic_pass_tour4_opt:
  "basic_pass tour4_opt st = Inr (tour4_opt, st\<lparr>iterations := iterations st + 1,
     total_comparisons := total_comparisons st + 2\<rparr>, False)"
  by (simp add: basic_pass_def basic_search_tour4_opt Let_def)

lemma basic_2opt_tour4:
  "basic_2opt tour4 = Inr (tour4_opt, \<lparr>initial_length = 18, final_length = 14, num_swaps = 1,
     num_visited = 0, total_comparisons = 4, iterations = 2, active_nodes = 0\<rparr>)"
  by (simp add: basic_2opt_def Let_def basic_loop.simps [of tour4] basic_loop.simps [of tour4_opt]
      basic_pass_tour4 basic_pass_tour4_opt new_stats_def max_iterations_def
      tour_length_tour4 tour_length_tour4_opt)

subsection \<open>What a search has seen\<close>

lemma foldE_mono:
  fixes m :: "'s \<Rightarrow> real"
  assumes "foldE f xs s = Inr s'"
    and "\<And>y t t'. y \<in> set xs \<Longrightarrow> f y t = Inr t' \<Longrightarrow> m t \<le> m t'"
  shows "m s \<le> m s'"
proof (rule foldE_invariant [where P = "\<lambda>t. m s \<le> m t", OF assms(1)])
  show "m s \<le> m s" ..
next
  fix y t t' assume "y \<in> set xs" "m s \<le> m t" "f y t = Inr t'"
  then show "m s \<le> m t'" using assms(2) [of y t t'] by linarith
qed

lemma foldE_visits:
  fixes m :: "'s \<Rightarrow> real"
  assumes "foldE f xs s = Inr s'" and "x \<in> set xs"
    and "\<And>y t t'. y \<in> set xs \<Longrightarrow> f y t = Inr t' \<Longrightarrow> m t \<le> m t'"
  shows "\<exists>t t'. f x t = Inr t' \<and> m t' \<le> m s'"
  using assms
proof (induction xs arbitrary: s)
  case Nil
  then show ?case by simp
next
  case (Cons y ys)
  from Cons.prems(1) obtain u where u: "f y s = Inr u" "foldE f ys u = Inr s'"
    by (auto simp: bindE_eq_Inr)
  have step: "\<And>z t t'. z \<in> set ys \<Longrightarrow> f z t = Inr t' \<Longrightarrow> m t \<le> m t'"
  proof -
    fix z t t' assume "z \<in> set ys" and ft: "f z t = Inr t'"
    then have "z \<in> set (y # ys)" by simp
    then show "m t \<le> m t'" using ft by (rule Cons.prems(3))
  qed
  show ?case
  proof (cases "x = y")
    case True
    have "m u \<le> m s'" using u(2) step by (rule foldE_mono)
    with u(1) True show ?thesis by blast
  next
    case False
    with Cons.prems(2) have "x \<in> set ys" by simp
    with u(2) show ?thesis using step by (rule Cons.IH)
  qed
qed

lemma try_swap_Inr:
  assumes "try_swap gain_of tour i j s = Inr s'"
  obtains gain where "gain_of tour i j = Inr gain"
    "s' = (if gain > best_gain s
           then s\<lparr>comparisons := comparisons s + 1, best_gain := gain, best_i := i, best_j := j\<rparr>
           else s\<lparr>comparisons := comparisons s + 1\<rparr>)"
  using assms by (auto simp: try_swap_def Let_def bindE_eq_Inr)

lemma try_swap_mono: "try_swap gain_of tour i j s = Inr s' \<Longrightarrow> best_gain s \<le> best_gain s'"
  by (erule try_swap_Inr) (auto split: if_splits)

lemma try_swap_bound:
  "try_swap gain_of tour i j s = Inr s' \<Longrightarrow> \<exists>g. gain_of tour i j = Inr g \<and> g \<le> best_gain s'"
  by (erule try_swap_Inr) (auto split: if_splits)

lemma sz_add_simp: "a + b < size_max \<Longrightarrow> sz_add a b = a + b"
  by (simp add: sz_add_def)

lemma basic_inner_mono:
  assumes "foldE (\<lambda>j s. if j = sz_sub (length tour) 1 \<and> i = 0 then Inr s
                else try_swap calculate_2opt_gain tour i j s) js (s :: search) = Inr s'"
  shows "best_gain s \<le> best_gain s'"
proof (rule foldE_mono [where m = best_gain, OF assms])
  fix y and t t' :: search
  assume "(if y = sz_sub (length tour) 1 \<and> i = 0 then Inr t
           else try_swap calculate_2opt_gain tour i y t) = Inr t'"
  then show "best_gain t \<le> best_gain t'"
    by (auto split: if_splits dest: try_swap_mono)
qed

lemma basic_search_complete:
  assumes s: "basic_search T c = Inr s" and n: "length T < size_max"
    and ij: "i + 2 \<le> j" "j < length T" "\<not> (i = 0 \<and> j = length T - 1)"
  shows "\<exists>g. calculate_2opt_gain T i j = Inr g \<and> g \<le> best_gain s"
proof -
  let ?inner = "\<lambda>i j (s :: search). if j = sz_sub (length T) 1 \<and> i = 0 then Inr s
                else try_swap calculate_2opt_gain T i j s"
  let ?outer = "\<lambda>i. foldE (?inner i) [sz_add i 2..<length T]"
  have n1: "sz_sub (length T) 1 = length T - 1" and n2: "sz_sub (length T) 2 = length T - 2"
    using n ij by (simp_all add: sz_sub_simp)
  have i2: "sz_add i 2 = i + 2" using n ij by (simp add: sz_add_simp)
  from s have fold: "foldE ?outer [0..<sz_sub (length T) 2] (new_search c) = Inr s"
    by (simp add: basic_search_def)
  have "i \<in> set [0..<sz_sub (length T) 2]" using ij n2 by simp
  with fold have "\<exists>t t'. ?outer i t = Inr t' \<and> best_gain t' \<le> best_gain s"
  proof (rule foldE_visits [where m = best_gain])
    fix y and t t' :: search
    assume "?outer y t = Inr t'"
    then show "best_gain t \<le> best_gain t'" by (rule basic_inner_mono)
  qed
  then obtain t t' where t: "?outer i t = Inr t'" "best_gain t' \<le> best_gain s" by blast
  have "j \<in> set [sz_add i 2..<length T]" using ij i2 by simp
  with t(1) have "\<exists>u u'. ?inner i j u = Inr u' \<and> best_gain u' \<le> best_gain t'"
  proof (rule foldE_visits [where m = best_gain])
    fix y and u u' :: search
    assume "?inner i y u = Inr u'"
    then show "best_gain u \<le> best_gain u'"
      by (auto split: if_splits dest: try_swap_mono)
  qed
  then obtain u u' where u: "?inner i j u = Inr u'" "best_gain u' \<le> best_gain t'" by blast
  from u(1) ij(3) n1 have "try_swap calculate_2opt_gain T i j u = Inr u'"
    by (auto split: if_splits)
  then obtain g where "calculate_2opt_gain T i j = Inr g" "g \<le> best_gain u'"
    by (auto dest: try_swap_bound)
  with u(2) t(2) show ?thesis by auto
qed

lemma calculate_2opt_gain_commute: "calculate_2opt_gain T i j = calculate_2opt_gain T j i"
  by (cases i j rule: linorder_cases) (simp_all add: calculate_2opt_gain_def)

lemma basic_search_local_minimum:
  assumes s: "basic_search T c = Inr s" and b: "\<not> best_gain s > min_improvement"
    and n: "length T < size_max"
  shows "local_minimum T"
  unfolding local_minimum_def
proof (intro allI impI)
  fix i j assume ij: "i < length T" "j < length T"
  have le: "\<exists>g. calculate_2opt_gain T a b = Inr g \<and> g \<le> min_improvement"
    if ab: "a \<le> b" "b < length T" for a b
  proof (cases "b \<le> a + 1 \<or> (a = 0 \<and> b = length T - 1)")
    case True
    moreover have "sz_sub (length T) 1 = length T - 1" using n ab by (simp add: sz_sub_simp)
    ultimately have "calculate_2opt_gain T a b = Inr 0"
      using ab by (auto simp: calculate_2opt_gain_def)
    then show ?thesis by (simp add: min_improvement_def)
  next
    case False
    then have "a + 2 \<le> b" "\<not> (a = 0 \<and> b = length T - 1)" by auto
    from basic_search_complete [OF s n this(1) ab(2) this(2)] b show ?thesis by auto
  qed
  show "\<exists>g. calculate_2opt_gain T i j = Inr g \<and> g \<le> min_improvement"
  proof (cases "i \<le> j")
    case True
    then show ?thesis using ij by (intro le)
  next
    case False
    then have "\<exists>g. calculate_2opt_gain T j i = Inr g \<and> g \<le> min_improvement"
      using ij by (intro le) auto
    then show ?thesis by (simp add: calculate_2opt_gain_commute [of T i j])
  qed
qed

lemma basic_pass_unimproved:
  assumes "basic_pass T st = Inr (T', st', False)" "length T < size_max"
  shows "T' = T \<and> local_minimum T"
proof -
  from assms(1) obtain s where s: "basic_search T (total_comparisons st) = Inr s"
    "\<not> best_gain s > min_improvement" "T' = T"
    by (auto simp: basic_pass_def Let_def bindE_eq_Inr split: if_splits)
  from basic_search_local_minimum [OF s(1,2) assms(2)] s(3) show ?thesis by simp
qed

lemma basic_pass_length:
  "basic_pass T st = Inr (T', st', b) \<Longrightarrow> length T' = length T"
  by (drule basic_pass_coords) (metis length_map mset_eq_length)

lemma basic_loop_local_minimum:
  "basic_loop T st b = Inr (T', st') \<Longrightarrow> b \<Longrightarrow> iterations st' < max_iterations \<Longrightarrow>
   length T < size_max \<Longrightarrow> local_minimum T'"
proof (induction T st b rule: basic_loop.induct)
  case (1 tour stats improved)
  show ?case
  proof (cases "improved \<and> iterations stats < max_iterations")
    case True
    with 1(2) obtain r where r: "basic_pass tour stats = Inr r"
      "basic_loop (fst r) (fst (snd r)) (snd (snd r)) = Inr (T', st')"
      by (subst (asm) basic_loop.simps) (auto simp: bindE_eq_Inr)
    from r(1) have p: "basic_pass tour stats = Inr (fst r, fst (snd r), snd (snd r))" by simp
    from basic_pass_length [OF p] have len: "length (fst r) < size_max" using 1(5) by simp
    show ?thesis
    proof (cases "snd (snd r)")
      case True
      from 1(1) [OF \<open>improved \<and> iterations stats < max_iterations\<close> r True 1(4) len]
      show ?thesis .
    next
      case False
      with r(2) have "T' = fst r" by (subst (asm) basic_loop.simps) simp
      moreover from p False have "basic_pass tour stats = Inr (fst r, fst (snd r), False)"
        by simp
      from basic_pass_unimproved [OF this 1(5)] have "fst r = tour" "local_minimum tour"
        by simp_all
      ultimately show ?thesis by simp
    qed
  next
    case False
    with 1(2) have "st' = stats" by (subst (asm) basic_loop.simps) auto
    with False 1(3,4) show ?thesis by simp
  qed
qed

lemma basic_2opt_reaches_local_minimum:
  assumes "basic_2opt T = Inr (T', st)" "iterations st < max_iterations" "length T < size_max"
  shows "local_minimum T'"
proof -
  from assms(1) obtain r where r: "basic_loop T (new_stats\<lparr>initial_length := tour_length T\<rparr>) True
      = Inr r" "T' = fst r" "st = (snd r)\<lparr>final_length := tour_length (fst r)\<rparr>"
    by (auto simp: basic_2opt_def Let_def bindE_eq_Inr)
  from r(1) have "basic_loop T (new_stats\<lparr>initial_length := tour_length T\<rparr>) True
      = Inr (fst r, snd r)" by simp
  moreover have "iterations (snd r) < max_iterations" using assms(2) r(3) by simp
  ultimately have "local_minimum (fst r)" using assms(3)
    by (intro basic_loop_local_minimum [where b = True]) auto
  with r(2) show ?thesis by simp
qed

subsection \<open>The tree that build makes\<close>






subsection \<open>The fixed-radius query\<close>









subsection \<open>Sorting meets the postcondition of nth\_element\<close>







lemma build_tour4:
  "build nth_element_sort new_KDTree tour4 =
     \<lparr>kd_root = KDNode (new_Point 3 4 1)
        (KDNode (new_Point 0 4 3) (KDNode (new_Point 0 0 0) Null Null 2) Null 1)
        (KDNode (new_Point 3 0 2) Null Null 1) 0,
      kd_size = 4, nodes_visited = 0\<rparr>"
  by (simp add: build_def build_rec.simps new_KDTree_def nth_element_range_def
      nth_element_sort_def Let_def tour4_def new_Point_def axis_less_def)

subsection \<open>The hybrid optimizer on four points\<close>





















lemma min_improvement_less: "min_improvement < 1 / 50" "\<not> min_improvement < min_improvement"
  by (simp_all add: min_improvement_def)










subsection \<open>What a search chooses\<close>

lemma chosen_kdtree [simp]: "chosen T (s\<lparr>kdtree := k\<rparr>) = chosen T s"
  by (simp add: chosen_def)

lemma chosen_new_search [simp]: "chosen T (new_search c)" "chosen T (new_kd_search c kd)"
  by (simp_all add: chosen_def new_search_def new_kd_search_def)







subsection \<open>The length of the tour along a run\<close>






subsection \<open>The loops of the three exact-gain optimizers\<close>







subsection \<open>Tours of four points\<close>





section \<open>The claims\<close>

subsection \<open>C2: the gain and the change of length\<close>

text \<open>
  Claim C2: for every tour \<open>T\<close> of size \<open>n\<close> and every pair with \<open>i + 2 \<le> j < n\<close> other
  than \<open>(0, n - 1)\<close>, \<open>calculate_2opt_gain T i j\<close> is \<open>tour_length T\<close> minus the length of the
  tour after \<open>perform_2opt_swap T i j\<close>.

  The code departs from it. On \<open>tour5\<close> and the pair \<open>(0, 3)\<close> the gain is 2, but the
  reversal of positions 1 to 3 is longer than the rest of the tour, so
  \<open>smart_reverse_segment\<close> takes its wrap-around branch, which here returns the whole
  tour in reverse order: the length does not change.
\<close>

theorem gain_differs_from_length_change:
  "calculate_2opt_gain tour5 0 3 = Inr 2 \<and>
   perform_2opt_swap tour5 0 3 = Inr tour5_rev \<and>
   tour_length tour5 - tour_length tour5_rev = 0"
  by (simp add: gain_tour5 perform_2opt_swap_tour5 tour_length_tour5 tour_length_tour5_rev)

subsection \<open>C7: the two reversals\<close>

text \<open>
  Claim C7: for every tour and all bounds \<open>i \<le> j\<close>, \<open>smart_reverse_segment\<close> and
  \<open>reverse_segment\<close> give tours with the same cyclic edge set.

  The code departs from it. On \<open>tour5\<close> with \<open>i = 1\<close> and \<open>j = 3\<close> the wrap-around branch
  of \<open>smart_reverse_segment\<close> returns the tour in reverse order, whose edges are those of
  \<open>tour5\<close>, while \<open>reverse_segment\<close> joins the points with ids 0 and 3.
\<close>

theorem smart_reverse_segment_other_edges:
  "smart_reverse_segment tour5 1 3 = Inr tour5_rev \<and>
   reverse_segment tour5 1 3 =
     Inr [new_Point 5 0 0, new_Point 7 0 3, new_Point 3 0 2, new_Point 1 0 1, new_Point 4 0 4] \<and>
   {new_Point 5 0 0, new_Point 7 0 3} \<in> cyclic_edges
     [new_Point 5 0 0, new_Point 7 0 3, new_Point 3 0 2, new_Point 1 0 1, new_Point 4 0 4] \<and>
   {new_Point 5 0 0, new_Point 7 0 3} \<notin> cyclic_edges tour5_rev"
  by (simp add: smart_reverse_segment_def sz_sub_def size_max_def std_reverse_def
      reverse_segment.simps tour5_def tour5_rev_def cyclic_edges_def upt_conv_Cons
      new_Point_def doubleton_eq_iff)

subsection \<open>C5: the optimizers on the empty tour\<close>

text \<open>
  Claim C5: called on an empty tour, every optimizer accesses no index out of bounds and
  returns statistics with \<open>initial_length = final_length = 0\<close> and \<open>num_swaps = 0\<close>.

  \<open>basic_2opt\<close>, \<open>approximate_2opt\<close> and \<open>hybrid_2opt\<close> do so, after one pass. The code of
  \<open>geometric_2opt\<close> departs from the claim: the bound \<^verbatim>\<open>tour.size() - 2\<close> of its loop
  over \<open>i\<close> wraps around to \<open>2 ^ 64 - 2\<close>, and the first round reads \<^verbatim>\<open>tour[0]\<close>.
\<close>

theorem optimizers_on_empty_tour:
  "basic_2opt [] = Inr ([], new_stats\<lparr>iterations := 1\<rparr>) \<and>
   approximate_2opt rnd [] = Inr ([], new_stats\<lparr>iterations := 1\<rparr>) \<and>
   hybrid_2opt ne [] = Some (Inr ([], new_stats\<lparr>iterations := 1\<rparr>)) \<and>
   geometric_2opt ne [] = Inl OutOfBounds"
  by (simp only: basic_2opt_empty approximate_2opt_empty hybrid_2opt_empty
      geometric_2opt_empty simp_thms)

subsection \<open>C8: the adaptive query\<close>

text \<open>
  Claim C8: \<open>find_neighbors_adaptive q r0 m\<close> starts by querying at the radius \<open>r0\<close> and
  enlarges the radius by the factor 1.5 while the result has fewer than \<open>m\<close> points and
  the radius is below 2; in particular the result is not empty when the tree holds a
  point within the distance \<open>r0\<close> of the query.

  The code departs from it: the bound on the radius is tested before the first query,
  so that with \<open>r0 = 2\<close> nothing is queried and the result is empty, although the tree
  holds the query point itself, which \<open>find_neighbors\<close> returns at that radius.
\<close>

theorem adaptive_query_at_large_radius:
  "find_neighbors_adaptive (build nth_element_sort new_KDTree [new_Point 0 0 0])
     (new_Point 0 0 0) 2 1
     = Some ([], build nth_element_sort new_KDTree [new_Point 0 0 0]) \<and>
   fst (find_neighbors (build nth_element_sort new_KDTree [new_Point 0 0 0])
     (new_Point 0 0 0) 2) = [new_Point 0 0 0] \<and>
   distance (new_Point 0 0 0) (new_Point 0 0 0) \<le> 2"
  by (simp add: find_neighbors_adaptive_cap build_single find_neighbors_single distance_def)

subsection \<open>C9: the size of a rebuilt tree\<close>

text \<open>
  Claim C9: after every call of \<open>build\<close> the size of the tree is the size of the input,
  also when a tree built from a non-empty set is built again from an empty one.

  The code departs from it: \<open>build\<close> returns at once on an empty input and leaves the
  root and the size of the earlier tree in place.
\<close>

theorem build_empty_keeps_size:
  "kd_size (build ne (build ne new_KDTree [new_Point 0 0 0]) []) = 1 \<and>
   length ([] :: Point list) = 0"
  by (simp add: build_size)

subsection \<open>C4: the tour stays a permutation of the input\<close>

text \<open>
  Claim C4: for every optimizer and every input tour \<open>T0\<close> with distinct ids, the tour
  \<open>Tk\<close> after every pass \<open>k\<close> of the optimization loop satisfies \<open>is_valid_tour Tk T0\<close>:
  it has the size of \<open>T0\<close> and the same multiset of ids.

  \<open>Tk\<close> is any tour reached from \<open>T0\<close> by passes of the loops; by
  \<open>run_optimizer_passes\<close> the tour a call returns is one of them.
\<close>

theorem tour_valid_after_every_pass:
  assumes "distinct (map pid T0)" and "(optimizer_pass ne rnd)\<^sup>*\<^sup>* T0 Tk"
  shows "is_valid_tour Tk T0 \<and> mset (map pid Tk) = mset (map pid T0)"
proof -
  from assms(2) have "mset (map coords Tk) = mset (map coords T0)"
    by (rule optimizer_passes_coords)
  then have "mset (map pid Tk) = mset (map pid T0)" by (rule coords_pid)
  with assms(1) show ?thesis by (simp add: is_valid_tour_permutation)
qed

theorem tour_valid_after_every_pass_witness:
  "distinct (map pid tour4) \<and>
   (optimizer_pass nth_element_sort (\<lambda>k. 0))\<^sup>*\<^sup>* tour4 tour4_opt \<and>
   is_valid_tour tour4_opt tour4 \<and> mset (map pid tour4_opt) = mset (map pid tour4)"
proof -
  have d: "distinct (map pid tour4)" by (simp add: tour4_def new_Point_def)
  have "optimizer_pass nth_element_sort (\<lambda>k. 0) tour4 tour4_opt"
    by (rule pass_basic [OF basic_pass_tour4])
  then have r: "(optimizer_pass nth_element_sort (\<lambda>k. 0))\<^sup>*\<^sup>* tour4 tour4_opt"
    by (rule r_into_rtranclp)
  from tour_valid_after_every_pass [OF d r] d r show ?thesis by simp
qed

subsection \<open>C10: what an optimizer leaves alone\<close>

text \<open>
  Claim C10: a call of an optimizer changes only the order of the points of the tour and
  their \<open>active\<close> flags: the multiset of the triples \<open>(x, y, id)\<close> of the returned tour is
  that of the input.
\<close>

theorem optimizers_keep_points:
  assumes "run_optimizer opt ne rnd T = Some (Inr (T', st))"
  shows "mset (map coords T') = mset (map coords T)"
proof -
  from run_optimizer_passes [OF assms] have "(optimizer_pass ne rnd)\<^sup>*\<^sup>* T T'" by simp
  then show ?thesis by (rule optimizer_passes_coords)
qed

theorem optimizers_keep_points_witness:
  "run_optimizer Basic nth_element_sort (\<lambda>k. 0) tour4
     = Some (Inr (tour4_opt, \<lparr>initial_length = 18, final_length = 14, num_swaps = 1,
         num_visited = 0, total_comparisons = 4, iterations = 2, active_nodes = 0\<rparr>)) \<and>
   mset (map coords tour4_opt) = mset (map coords tour4)"
proof -
  have r: "run_optimizer Basic nth_element_sort (\<lambda>k. 0) tour4
     = Some (Inr (tour4_opt, \<lparr>initial_length = 18, final_length = 14, num_swaps = 1,
         num_visited = 0, total_comparisons = 4, iterations = 2, active_nodes = 0\<rparr>))"
    by (simp add: basic_2opt_tour4)
  from optimizers_keep_points [OF r] r show ?thesis by simp
qed

subsection \<open>C6: the local minimum of the basic optimizer\<close>

text \<open>
  Claim C6: after \<open>basic_2opt\<close> returns on any input tour, no pair \<open>(i, j)\<close> has
  \<open>calculate_2opt_gain T i j > min_improvement\<close>.

  This fails when the loop stops at \<open>max_iterations\<close>: on \<open>tour5\<close> every pass applies the
  swap \<open>(0, 3)\<close>, which only turns the tour around, and after 1000 passes the tour is
  \<open>tour5\<close> again, with the gain 2 at \<open>(0, 3)\<close>.
\<close>

theorem basic_2opt_stops_above_minimum:
  "basic_2opt tour5 = Inr (tour5, \<lparr>initial_length = 14, final_length = 14, num_swaps = 1000,
     num_visited = 0, total_comparisons = 5000, iterations = 1000, active_nodes = 0\<rparr>) \<and>
   calculate_2opt_gain tour5 0 3 = Inr 2 \<and> min_improvement < 2 \<and> \<not> local_minimum tour5"
proof -
  have "\<not> local_minimum tour5"
  proof
    assume "local_minimum tour5"
    moreover have "0 < length tour5" "3 < length tour5" by (simp_all add: tour5_def)
    ultimately have "\<exists>g. calculate_2opt_gain tour5 0 3 = Inr g \<and> g \<le> min_improvement"
      unfolding local_minimum_def by blast
    then show False by (simp add: gain_tour5 min_improvement_def)
  qed
  then show ?thesis by (simp add: basic_2opt_tour5 gain_tour5 min_improvement_def)
qed

text \<open>
  Claim C6 as amended: when \<open>basic_2opt\<close> returns with fewer than \<open>max_iterations\<close>
  iterations, that is when its last pass applied no swap, the returned tour is a local
  minimum: every pair of positions has a gain of at most \<open>min_improvement\<close>. The tour is
  taken to fit a \<^verbatim>\<open>size_t\<close>.
\<close>

theorem basic_2opt_local_minimum:
  assumes "basic_2opt T = Inr (T', st)" and "iterations st < max_iterations"
    and "length T < size_max"
  shows "local_minimum T'"
  using assms by (rule basic_2opt_reaches_local_minimum)

theorem basic_2opt_local_minimum_witness:
  "basic_2opt tour4 = Inr (tour4_opt, \<lparr>initial_length = 18, final_length = 14, num_swaps = 1,
     num_visited = 0, total_comparisons = 4, iterations = 2, active_nodes = 0\<rparr>) \<and>
   (2 :: nat) < max_iterations \<and> length tour4 < size_max \<and> local_minimum tour4_opt"
proof -
  have a: "iterations \<lparr>initial_length = 18, final_length = 14, num_swaps = 1,
     num_visited = 0, total_comparisons = 4, iterations = 2, active_nodes = 0\<rparr> < max_iterations"
    by (simp add: max_iterations_def)
  have b: "length tour4 < size_max" by (simp add: tour4_def size_max_def)
  from basic_2opt_local_minimum [OF basic_2opt_tour4 a b] b show ?thesis
    by (simp add: basic_2opt_tour4 max_iterations_def)
qed

subsection \<open>C3: the fixed-radius query finds the points within the radius\<close>




subsection \<open>C1: the final length against the initial length\<close>




end
